theory Spec2Isabelle
  imports Complex_Main "HOL-Library.Word"
begin

unbundle bit_operations_syntax

section \<open>Conventions of the embedding\<close>

text \<open>
  The sketch is C++ for a 32-bit microcontroller. Its unsigned counters are words of
  the declared width (\<open>uint64_t\<close> is \<open>64 word\<close>, \<open>uint32_t\<close> is \<open>32 word\<close>,
  \<open>uint16_t\<close> is \<open>16 word\<close>, \<open>int16_t\<close> buffer cells are \<open>16 word\<close> read with
  \<open>sint\<close>). Values of type \<open>int\<close> that hold MIDI notes, percentages and tempi are
  modelled by \<open>int\<close>; none of the arithmetic done on them leaves the 32-bit range for
  the inputs the theorems speak about.

  Single-precision values are modelled by \<open>real\<close>: the operations \<open>+\<close>, \<open>-\<close>, \<open>*\<close>,
  \<open>/\<close> are exact and \<open>sqrtf\<close>, \<open>expf\<close>, \<open>logf\<close>, \<open>powf\<close> are the real functions.
  Rounding of single-precision arithmetic is therefore not part of the model. A
  conversion of a float to an integer type truncates towards zero (\<open>truncf\<close>).

  A read or write outside an array and a remainder by zero are undefined behaviour in
  the source; the functions that can reach one return \<open>None\<close> there. The mutable
  globals of the sketch are passed in and returned explicitly. Fields of different
  structs that share a name carry a short prefix of their struct.
\<close>

definition truncf :: "real \<Rightarrow> int" where
  "truncf x = (if 0 \<le> x then \<lfloor>x\<rfloor> else \<lceil>x\<rceil>)"

definition SR :: int where
  "SR = 44100"

definition TAU :: real where
  "TAU = 6.28318530718"

definition CHUNK :: int where
  "CHUNK = 256"

section \<open>Musical clock\<close>

record Clock16 =
  smpNow :: "64 word"
  nextTickAt :: "64 word"
  samplesPerTick :: "32 word"
  step16 :: "16 word"
  bpm :: "16 word"

text \<open>\<open>clock_spt_from_bpm\<close>: \<open>(uint32_t)((SR * 60.0f) / (bpm * 4.0f) + 0.5f)\<close> after
  the lower clamp of \<open>bpm\<close> at 30.\<close>

definition clock_spt_from_bpm :: "int \<Rightarrow> 32 word" where
  "clock_spt_from_bpm b =
     (let b1 = (if b < 30 then 30 else b)
      in word_of_int (truncf ((real_of_int SR * 60) / (real_of_int b1 * 4) + 0.5)))"

definition clock_init :: "int \<Rightarrow> Clock16" where
  "clock_init b =
     (let spt = clock_spt_from_bpm b
      in \<lparr>smpNow = 0, nextTickAt = ucast spt, samplesPerTick = spt, step16 = 0,
          bpm = word_of_int b\<rparr>)"

definition clock_update_tempo_if_changed :: "Clock16 \<Rightarrow> int \<Rightarrow> Clock16" where
  "clock_update_tempo_if_changed c b =
     (if b \<noteq> uint (bpm c)
      then (let spt = clock_spt_from_bpm b
            in c\<lparr>bpm := word_of_int b, samplesPerTick := spt,
                 nextTickAt := smpNow c + ucast spt\<rparr>)
      else c)"

text \<open>One iteration of the body of the \<open>while\<close> loop of \<open>clock_advance_block\<close>, without
  the call of the step handler: the step index moves on modulo 16 and the tick target
  moves on by one \<open>samplesPerTick\<close> (64-bit addition, which wraps).\<close>

definition clock_tick :: "Clock16 \<Rightarrow> Clock16" where
  "clock_tick c =
     c\<lparr>step16 := (step16 c + 1) AND 0x0F,
       nextTickAt := nextTickAt c + ucast (samplesPerTick c)\<rparr>"

text \<open>The loop \<open>while (c.nextTickAt <= blockEnd) { onStep16(c.step16); ... }\<close>. The step
  handler \<open>h\<close> stands for \<open>onStep16\<close>, which works on globals \<open>'s\<close> that the clock does
  not touch. The loop need not terminate (a zero \<open>samplesPerTick\<close> never moves the tick
  target), so it is a partial function: \<open>None\<close> is a loop that never returns.\<close>

partial_function (option) clock_loop ::
  "(16 word \<Rightarrow> 's \<Rightarrow> 's) \<Rightarrow> 64 word \<Rightarrow> Clock16 \<Rightarrow> 's \<Rightarrow> (Clock16 \<times> 's) option" where
  "clock_loop h blockEnd c s =
     (if nextTickAt c \<le> blockEnd
      then clock_loop h blockEnd (clock_tick c) (h (step16 c) s)
      else Some (c, s))"

definition clock_advance_block ::
  "(16 word \<Rightarrow> 's \<Rightarrow> 's) \<Rightarrow> Clock16 \<Rightarrow> 32 word \<Rightarrow> 's \<Rightarrow> (Clock16 \<times> 's) option" where
  "clock_advance_block h c blockSamples s =
     (let blockEnd = smpNow c + ucast blockSamples
      in case clock_loop h blockEnd c s of
           None \<Rightarrow> None
         | Some (c1, s1) \<Rightarrow> Some (c1\<lparr>smpNow := blockEnd\<rparr>, s1))"

text \<open>A step handler that only records the step index it is called with; the list it
  builds is the sequence of \<open>onStep16\<close> events in firing order.\<close>

definition record_step :: "16 word \<Rightarrow> 16 word list \<Rightarrow> 16 word list" where
  "record_step st tr = tr @ [st]"

text \<open>Running the clock over a sequence of blocks, as successive iterations of \<open>loop()\<close>
  do.\<close>

fun clock_run ::
  "(16 word \<Rightarrow> 's \<Rightarrow> 's) \<Rightarrow> Clock16 \<Rightarrow> 's \<Rightarrow> 32 word list \<Rightarrow> (Clock16 \<times> 's) option" where
  "clock_run h c s [] = Some (c, s)"
| "clock_run h c s (b # bs) =
     (case clock_advance_block h c b s of
        None \<Rightarrow> None
      | Some (c1, s1) \<Rightarrow> clock_run h c1 s1 bs)"

text \<open>The events fired when the clock is started by \<open>clock_init\<close> and run over the
  blocks \<open>bs\<close>.\<close>

definition clock_events :: "int \<Rightarrow> 32 word list \<Rightarrow> 16 word list option" where
  "clock_events b bs = map_option snd (clock_run record_step (clock_init b) [] bs)"

text \<open>For the proofs: the state of a clock with period \<open>spt\<close> that was started by
  \<open>clock_init\<close> and has seen \<open>N\<close> samples.\<close>

definition clock_after :: "32 word \<Rightarrow> 16 word \<Rightarrow> nat \<Rightarrow> Clock16" where
  "clock_after spt bw N =
     \<lparr>smpNow = of_nat N, nextTickAt = of_nat ((N div unat spt + 1) * unat spt),
      samplesPerTick = spt, step16 = of_nat (N div unat spt mod 16), bpm = bw\<rparr>"

section \<open>Scales and the quantizer\<close>

text \<open>The enumerators of \<open>Scale\<close> that name a scale; the fifth enumerator
  \<open>SCALE_COUNT\<close> of the source is the length of the table \<open>SCALES\<close>, not a scale.\<close>

datatype Scale = SCALE_C_MINOR | SCALE_A_MINOR | SCALE_D_DORIAN | SCALE_C_LYDIAN

record ScaleDef =
  rootPC :: int
  degrees :: "int list"
  count :: nat

text \<open>The table \<open>SCALES\<close>, entry by entry as the source has it (the entry commented
  "C minor" carries the same degrees as "C lydian").\<close>

definition scaleDef :: "Scale \<Rightarrow> ScaleDef" where
  "scaleDef s =
     (case s of
        SCALE_C_MINOR \<Rightarrow> \<lparr>rootPC = 0, degrees = [0, 2, 4, 6, 7, 9, 11], count = 7\<rparr>
      | SCALE_A_MINOR \<Rightarrow> \<lparr>rootPC = 9, degrees = [0, 2, 3, 5, 7, 8, 10], count = 7\<rparr>
      | SCALE_D_DORIAN \<Rightarrow> \<lparr>rootPC = 2, degrees = [0, 2, 3, 5, 7, 9, 10], count = 7\<rparr>
      | SCALE_C_LYDIAN \<Rightarrow> \<lparr>rootPC = 0, degrees = [0, 2, 4, 6, 7, 9, 11], count = 7\<rparr>)"

text \<open>The remainder \<open>a % b\<close> of C++, which truncates towards zero and takes the sign of
  the dividend.\<close>

definition c_rem :: "int \<Rightarrow> int \<Rightarrow> int" where
  "c_rem a b = sgn a * (\<bar>a\<bar> mod \<bar>b\<bar>)"

text \<open>The lambda \<open>pc12\<close> of \<open>quantizeMidi\<close>.\<close>

definition pc12 :: "int \<Rightarrow> int" where
  "pc12 m = (let x = c_rem m 12 in if x < 0 then x + 12 else x)"

text \<open>The signed distance \<open>d\<close> of the loop body: \<open>targetPC - inPC\<close>, then
  \<open>if (d > 6) d -= 12; if (d < -6) d += 12;\<close>.\<close>

definition wrap_dist :: "int \<Rightarrow> int \<Rightarrow> int" where
  "wrap_dist targetPC inPC =
     (let d = targetPC - inPC;
          d1 = (if d > 6 then d - 12 else d)
      in if d1 < - 6 then d1 + 12 else d1)"

text \<open>The pitch class of degree \<open>i\<close> of a scale, \<open>(sd.rootPC + sd.degrees[i]) % 12\<close>.\<close>

definition targetPC :: "ScaleDef \<Rightarrow> nat \<Rightarrow> int" where
  "targetPC sd i = c_rem (rootPC sd + degrees sd ! i) 12"

text \<open>One iteration of the loop of \<open>quantizeMidi\<close> on the pair
  \<open>(bestDiff, bestAbs)\<close>.\<close>

definition quant_step :: "ScaleDef \<Rightarrow> int \<Rightarrow> nat \<Rightarrow> int \<times> int \<Rightarrow> int \<times> int" where
  "quant_step sd inPC i best =
     (let d = wrap_dist (targetPC sd i) inPC;
          ad = (if d \<ge> 0 then d else - d)
      in if ad < snd best \<or> (ad = snd best \<and> d > fst best) then (d, ad) else best)"

text \<open>The whole loop, from \<open>bestDiff = 127\<close> and \<open>bestAbs = 128\<close>.\<close>

definition quant_best :: "int \<Rightarrow> Scale \<Rightarrow> int \<times> int" where
  "quant_best midi s =
     (let sd = scaleDef s
      in fold (quant_step sd (pc12 midi)) [0..<count sd] (127, 128))"

definition quantizeMidi :: "int \<Rightarrow> Scale \<Rightarrow> int" where
  "quantizeMidi midi s =
     (let out = midi + fst (quant_best midi s);
          out1 = (if out < 0 then 0 else out)
      in if out1 > 127 then 127 else out1)"

text \<open>The degree set of a scale as pitch classes, and the wrapped signed distances from
  a note to each of them.\<close>

definition scale_pcs :: "Scale \<Rightarrow> int list" where
  "scale_pcs s = map (targetPC (scaleDef s)) [0..<count (scaleDef s)]"

definition scale_dists :: "int \<Rightarrow> Scale \<Rightarrow> int list" where
  "scale_dists midi s = map (\<lambda>t. wrap_dist t (pc12 midi)) (scale_pcs s)"

text \<open>For the proofs: the order in which the loop of \<open>quantizeMidi\<close> prefers one pair
  \<open>(shift, distance)\<close> to another (a smaller distance first, then the larger shift), and
  the pair of a degree.\<close>

definition beats :: "int \<times> int \<Rightarrow> int \<times> int \<Rightarrow> bool" where
  "beats r c = (snd r < snd c \<or> (snd r = snd c \<and> fst c \<le> fst r))"

definition cand :: "ScaleDef \<Rightarrow> int \<Rightarrow> nat \<Rightarrow> int \<times> int" where
  "cand sd inPC i = (wrap_dist (targetPC sd i) inPC, \<bar>wrap_dist (targetPC sd i) inPC\<bar>)"

section \<open>Envelope and pluck voices\<close>

datatype EnvState = ENV_IDLE | ENV_ATTACK | ENV_DECAY | ENV_SUSTAIN | ENV_RELEASE

record ADSR =
  adsr_a :: real
  adsr_d :: real
  adsr_s :: real
  adsr_r :: real
  adsr_env :: real
  adsr_st :: EnvState
  adsr_gate :: bool



record PluckVoice =
  pv_active :: bool
  pv_midi :: int
  pv_freqHz :: real
  pv_phase :: real
  pv_vel :: real
  pv_eg :: ADSR
  pv_pan :: real

record PluckPool =
  pool_v :: "PluckVoice list"
  pool_gain :: real
  pool_inited :: bool

text \<open>The member initialisers of \<open>ADSR\<close> and \<open>PluckVoice\<close>.\<close>

definition ADSR_default :: ADSR where
  "ADSR_default =
     \<lparr>adsr_a = 0.003, adsr_d = 0.080, adsr_s = 0, adsr_r = 0.060, adsr_env = 0,
      adsr_st = ENV_IDLE, adsr_gate = False\<rparr>"

definition PluckVoice_default :: PluckVoice where
  "PluckVoice_default =
     \<lparr>pv_active = False, pv_midi = 60, pv_freqHz = 261.63, pv_phase = 0, pv_vel = 0.7,
      pv_eg = ADSR_default, pv_pan = 0\<rparr>"

definition pluck_init :: "PluckPool \<Rightarrow> PluckPool" where
  "pluck_init p =
     p\<lparr>pool_gain := 0.35, pool_v := replicate 4 PluckVoice_default, pool_inited := True\<rparr>"

definition midiToHz :: "int \<Rightarrow> real" where
  "midiToHz m = 440 * 2 powr (real_of_int (m - 69) * (1 / 12))"

text \<open>The Arduino macro \<open>constrain(x, lo, hi)\<close>.\<close>

definition constrain :: "real \<Rightarrow> real \<Rightarrow> real \<Rightarrow> real" where
  "constrain x lo hi = (if x < lo then lo else if x > hi then hi else x)"

text \<open>The first loop of \<open>pluck_noteOn\<close>: the index of the first voice that is not
  active, or \<open>-1\<close>.\<close>

fun first_free :: "PluckVoice list \<Rightarrow> nat list \<Rightarrow> int" where
  "first_free vs [] = - 1"
| "first_free vs (i # js) = (if \<not> pv_active (vs ! i) then int i else first_free vs js)"

text \<open>One iteration of the second loop on the pair \<open>(idx, minEnv)\<close>.\<close>

definition quiet_step :: "PluckVoice list \<Rightarrow> nat \<Rightarrow> int \<times> real \<Rightarrow> int \<times> real" where
  "quiet_step vs i best =
     (let e = adsr_env (pv_eg (vs ! i))
      in if e < snd best then (int i, e) else best)"

text \<open>The voice index that \<open>pluck_noteOn\<close> settles on; it is still \<open>-1\<close> when no voice
  is free and no envelope is below \<open>1e9\<close>.\<close>

definition pluck_alloc :: "PluckVoice list \<Rightarrow> int" where
  "pluck_alloc vs =
     (let idx = first_free vs [0..<4]
      in if idx < 0 then fst (fold (quiet_step vs) [0..<4] (- 1, 1000000000)) else idx)"

text \<open>What \<open>pluck_noteOn\<close> writes into the chosen voice.\<close>

definition voice_start :: "PluckVoice \<Rightarrow> int \<Rightarrow> real \<Rightarrow> PluckVoice" where
  "voice_start v q vel =
     v\<lparr>pv_midi := q, pv_freqHz := midiToHz q, pv_phase := 0,
       pv_vel := constrain vel 0 1,
       pv_eg := (pv_eg v)\<lparr>adsr_env := 0, adsr_st := ENV_ATTACK, adsr_gate := False\<rparr>,
       pv_active := True\<rparr>"

text \<open>The guard \<open>if (!p.inited) pluck_init(p);\<close> that opens \<open>pluck_noteOn\<close>.\<close>

definition pluck_ready :: "PluckPool \<Rightarrow> PluckPool" where
  "pluck_ready p = (if \<not> pool_inited p then pluck_init p else p)"

text \<open>\<open>pluck_noteOn\<close>, with the global \<open>gScale\<close> as the argument \<open>sc\<close>. The index
  \<open>-1\<close> would address \<open>p.v[-1]\<close>, outside the array: \<open>None\<close>.\<close>

definition pluck_noteOn :: "PluckPool \<Rightarrow> int \<Rightarrow> real \<Rightarrow> Scale \<Rightarrow> PluckPool option" where
  "pluck_noteOn p m vel sc =
     (let p0 = pluck_ready p;
          idx = pluck_alloc (pool_v p0)
      in if idx < 0 \<or> idx \<ge> 4 then None
         else Some (p0\<lparr>pool_v := (pool_v p0)
                        [nat idx := voice_start (pool_v p0 ! nat idx) (quantizeMidi m sc) vel]\<rparr>))"

text \<open>For examples: an initialised pool whose voices all sound, with the given
  envelope values.\<close>

definition sounding_pool :: "real list \<Rightarrow> PluckPool" where
  "sounding_pool es =
     \<lparr>pool_v = map (\<lambda>x. PluckVoice_default
                          \<lparr>pv_active := True,
                           pv_eg := ADSR_default\<lparr>adsr_env := x, adsr_st := ENV_DECAY\<rparr>\<rparr>) es,
      pool_gain = 0.35, pool_inited = True\<rparr>"

section \<open>Filters, delay and reverb\<close>

record OnePoleLP =
  lp_a :: real
  lp_y :: real

definition lp_set :: "OnePoleLP \<Rightarrow> real \<Rightarrow> real \<Rightarrow> OnePoleLP" where
  "lp_set f cutoffHz sr = f\<lparr>lp_a := 1 - exp (- (TAU * cutoffHz) / sr)\<rparr>"

text \<open>\<open>lp_process\<close> returns the new \<open>f.y\<close>; the model returns it with the updated
  filter.\<close>

definition lp_process :: "OnePoleLP \<Rightarrow> real \<Rightarrow> real \<times> OnePoleLP" where
  "lp_process f x =
     (let y = lp_y f + lp_a f * (x - lp_y f) in (y, f\<lparr>lp_y := y\<rparr>))"

text \<open>The clamp \<open>if (wr > 1.0f) wr = 1.0f; if (wr < -1.0f) wr = -1.0f;\<close> and the store
  \<open>(int16_t)(wr * 32767.0f)\<close> that the delay, the combs and the allpasses share, and the
  read \<open>rd * (1.0f / 32767.0f)\<close>.\<close>

definition clamp1 :: "real \<Rightarrow> real" where
  "clamp1 x = (let x1 = (if x > 1 then 1 else x) in if x1 < - 1 then - 1 else x1)"

definition to_q15 :: "real \<Rightarrow> 16 word" where
  "to_q15 x = word_of_int (truncf (x * 32767))"

definition of_q15 :: "16 word \<Rightarrow> real" where
  "of_q15 v = real_of_int (sint v) * (1 / 32767)"

datatype DelayMode = DELAY_1_8 | DELAY_1_4

definition DELAY_MAX_SAMPLES :: nat where
  "DELAY_MAX_SAMPLES = 32768"

record Delay =
  dl_buf :: "16 word list"
  dl_size :: "32 word"
  dl_w :: "32 word"
  dl_dSamp :: "32 word"
  dl_tone :: OnePoleLP
  dl_baseSend :: real
  dl_baseWet :: real
  dl_send :: real
  dl_wet :: real
  dl_fb :: real
  dl_bpmCached :: "16 word"
  dl_mode :: DelayMode
  dl_inited :: bool

record CombLite =
  cb_buf :: "16 word list"
  cb_size :: "16 word"
  cb_w :: "16 word"
  cb_fb :: real
  cb_damp :: real
  cb_filt :: real

record AllpassLite =
  ap_buf :: "16 word list"
  ap_size :: "16 word"
  ap_w :: "16 word"
  ap_g :: real

record ReverbLite =
  rv_c :: "CombLite list"
  rv_ap1 :: AllpassLite
  rv_ap2 :: AllpassLite
  rv_baseSend :: real
  rv_baseWet :: real
  rv_send :: real
  rv_wet :: real
  rv_inited :: bool

text \<open>\<open>comb_step\<close> and \<open>allpass_step\<close> read and write \<open>buf[w]\<close>; the buffer of a
  comb is one of the static arrays \<open>rvCombBuf1\<close> to \<open>rvCombBuf4\<close>, here the list
  \<open>cb_buf\<close> of the comb itself (no two combs share an array).\<close>

definition comb_step :: "CombLite \<Rightarrow> real \<Rightarrow> (real \<times> CombLite) option" where
  "comb_step c x =
     (if unat (cb_w c) \<ge> length (cb_buf c) then None
      else
        (let y = of_q15 (cb_buf c ! unat (cb_w c));
             filt = cb_filt c + cb_damp c * (y - cb_filt c);
             wr = clamp1 (x + cb_fb c * filt);
             w1 = cb_w c + 1
         in Some (y, c\<lparr>cb_filt := filt,
                        cb_buf := (cb_buf c)[unat (cb_w c) := to_q15 wr],
                        cb_w := (if w1 \<ge> cb_size c then 0 else w1)\<rparr>)))"

definition allpass_step :: "AllpassLite \<Rightarrow> real \<Rightarrow> (real \<times> AllpassLite) option" where
  "allpass_step a x =
     (if unat (ap_w a) \<ge> length (ap_buf a) then None
      else
        (let z = of_q15 (ap_buf a ! unat (ap_w a));
             y = - x + z;
             wr = clamp1 (x + ap_g a * y);
             w1 = ap_w a + 1
         in Some (y, a\<lparr>ap_buf := (ap_buf a)[unat (ap_w a) := to_q15 wr],
                        ap_w := (if w1 \<ge> ap_size a then 0 else w1)\<rparr>)))"

text \<open>\<open>reverb_init\<close> points the four combs and the two allpasses at their zeroed
  arrays of 1117, 1189, 1277, 1361 and 225, 341 cells.\<close>

definition comb_reset :: "CombLite \<Rightarrow> nat \<Rightarrow> CombLite" where
  "comb_reset c n = c\<lparr>cb_buf := replicate n 0, cb_size := of_nat n, cb_w := 0, cb_filt := 0\<rparr>"

definition allpass_reset :: "AllpassLite \<Rightarrow> nat \<Rightarrow> AllpassLite" where
  "allpass_reset a n = a\<lparr>ap_buf := replicate n 0, ap_size := of_nat n, ap_w := 0, ap_g := 0.5\<rparr>"

definition reverb_init :: "ReverbLite \<Rightarrow> ReverbLite" where
  "reverb_init r =
     r\<lparr>rv_c := map2 comb_reset (rv_c r) [1117, 1189, 1277, 1361],
       rv_ap1 := allpass_reset (rv_ap1 r) 225,
       rv_ap2 := allpass_reset (rv_ap2 r) 341,
       rv_inited := True\<rparr>"

text \<open>The map of the space percentage to \<open>[0, 1]\<close> that opens \<open>reverb_set_space\<close> and
  \<open>delay_set_space\<close>.\<close>

definition space_t :: "int \<Rightarrow> real" where
  "space_t spacePct =
     (if spacePct \<le> 0 then 0 else if spacePct \<ge> 100 then 1 else real_of_int spacePct * 0.01)"

definition reverb_set_space :: "ReverbLite \<Rightarrow> int \<Rightarrow> ReverbLite" where
  "reverb_set_space r spacePct =
     (let k = sqrt (space_t spacePct);
          send = 0.70 * k;
          wet = 0.35 * k;
          fb0 = 0.45 + 0.27 * k;
          fb = (if fb0 > 0.75 then 0.75 else fb0);
          damp = 0.15 + 0.20 * k
      in r\<lparr>rv_c := map (\<lambda>c. c\<lparr>cb_fb := fb, cb_damp := damp\<rparr>) (rv_c r),
           rv_baseSend := send, rv_baseWet := wet, rv_send := send, rv_wet := wet\<rparr>)"

text \<open>The four calls \<open>y += comb_step(r.c[i], xin)\<close> of \<open>reverb_step\<close>, in order.\<close>

fun combs_step :: "CombLite list \<Rightarrow> real \<Rightarrow> (real \<times> CombLite list) option" where
  "combs_step [] x = Some (0, [])"
| "combs_step (c # cs) x =
     (case comb_step c x of
        None \<Rightarrow> None
      | Some (y, c1) \<Rightarrow>
          (case combs_step cs x of
             None \<Rightarrow> None
           | Some (ys, cs1) \<Rightarrow> Some (y + ys, c1 # cs1)))"

definition reverb_step :: "ReverbLite \<Rightarrow> real \<Rightarrow> (real \<times> ReverbLite) option" where
  "reverb_step r dry =
     (let r0 = (if \<not> rv_inited r then reverb_init r else r);
          xin = rv_send r0 * dry
      in case combs_step (rv_c r0) xin of
           None \<Rightarrow> None
         | Some (ysum, cs) \<Rightarrow>
             (case allpass_step (rv_ap1 r0) (ysum * 0.25) of
                None \<Rightarrow> None
              | Some (y1, a1) \<Rightarrow>
                  (case allpass_step (rv_ap2 r0) y1 of
                     None \<Rightarrow> None
                   | Some (y2, a2) \<Rightarrow>
                       Some (y2, r0\<lparr>rv_c := cs, rv_ap1 := a1, rv_ap2 := a2\<rparr>))))"

definition delay_samples_from_bpm :: "int \<Rightarrow> DelayMode \<Rightarrow> 32 word" where
  "delay_samples_from_bpm b m =
     (let b1 = (if b < 30 then 30 else b);
          qnote = (real_of_int SR * 60) / real_of_int b1;
          want = (if m = DELAY_1_8 then qnote * 0.5 else qnote);
          s = (word_of_int (truncf (want + 0.5)) :: 32 word);
          s1 = (if s < 1 then 1 else s)
      in if s1 \<ge> of_nat DELAY_MAX_SAMPLES then of_nat DELAY_MAX_SAMPLES - 1 else s1)"

definition delay_init :: "Delay \<Rightarrow> int \<Rightarrow> DelayMode \<Rightarrow> real \<Rightarrow> Delay" where
  "delay_init dl b m toneCutHz =
     dl\<lparr>dl_size := of_nat DELAY_MAX_SAMPLES, dl_w := 0,
        dl_buf := replicate DELAY_MAX_SAMPLES 0,
        dl_mode := m, dl_bpmCached := word_of_int b,
        dl_dSamp := delay_samples_from_bpm b m,
        dl_tone := lp_set (dl_tone dl) toneCutHz (real_of_int SR),
        dl_inited := True\<rparr>"

definition delay_update_tempo_if_changed :: "Delay \<Rightarrow> int \<Rightarrow> Delay" where
  "delay_update_tempo_if_changed dl b =
     (if \<not> dl_inited dl then dl
      else if b \<noteq> uint (dl_bpmCached dl)
      then dl\<lparr>dl_bpmCached := word_of_int b,
              dl_dSamp := delay_samples_from_bpm b (dl_mode dl)\<rparr>
      else dl)"

definition delay_set_mode :: "Delay \<Rightarrow> DelayMode \<Rightarrow> Delay" where
  "delay_set_mode dl m =
     dl\<lparr>dl_mode := m, dl_dSamp := delay_samples_from_bpm (uint (dl_bpmCached dl)) m\<rparr>"

text \<open>\<open>delay_set_space\<close> also sets the space of the global reverb \<open>gReverb\<close>, here the
  second argument and the second result.\<close>

definition delay_set_space :: "Delay \<Rightarrow> ReverbLite \<Rightarrow> int \<Rightarrow> Delay \<times> ReverbLite" where
  "delay_set_space dl rv spacePct =
     (let k = sqrt (space_t spacePct);
          send = 0.75 * k;
          wet = 0.55 * k;
          fb0 = 0.55 * k;
          fb = (if fb0 > 0.6 then 0.6 else fb0)
      in (dl\<lparr>dl_baseSend := send, dl_baseWet := wet, dl_fb := fb,
             dl_send := send, dl_wet := wet\<rparr>,
          reverb_set_space rv spacePct))"

text \<open>\<open>delay_step\<close>: the read index is \<open>(dl.w + dl.size - dl.dSamp) % dl.size\<close> in
  32-bit arithmetic. A zero \<open>size\<close> is a remainder by zero and an index at or past the
  end of \<open>buf\<close> is outside the array: \<open>None\<close>.\<close>

definition delay_step :: "Delay \<Rightarrow> real \<Rightarrow> (real \<times> Delay) option" where
  "delay_step dl dry =
     (if \<not> dl_inited dl then Some (0, dl)
      else if dl_size dl = 0 then None
      else
        (let r = (dl_w dl + dl_size dl - dl_dSamp dl) mod dl_size dl
         in if unat r \<ge> length (dl_buf dl) \<or> unat (dl_w dl) \<ge> length (dl_buf dl) then None
            else
              (let delayed = of_q15 (dl_buf dl ! unat r);
                   (fbSample, tone) = lp_process (dl_tone dl) delayed;
                   toWrite = clamp1 (dry * dl_send dl + fbSample * dl_fb dl);
                   w1 = dl_w dl + 1
               in Some (delayed,
                        dl\<lparr>dl_tone := tone,
                           dl_buf := (dl_buf dl)[unat (dl_w dl) := to_q15 toWrite],
                           dl_w := (if w1 \<ge> dl_size dl then 0 else w1)\<rparr>))))"

text \<open>\<open>delay_step\<close> over a sequence of input samples; the wet taps are dropped.\<close>

fun delay_run :: "Delay \<Rightarrow> real list \<Rightarrow> Delay option" where
  "delay_run dl [] = Some dl"
| "delay_run dl (x # xs) =
     (case delay_step dl x of None \<Rightarrow> None | Some (y, dl1) \<Rightarrow> delay_run dl1 xs)"

section \<open>Tone tilt and the effect mix of the render loop\<close>

record TiltEQ =
  tq_split6k :: OnePoleLP
  tq_gainLow :: real
  tq_gainHigh :: real
  tq_inited :: bool

definition tone_init :: "TiltEQ \<Rightarrow> TiltEQ" where
  "tone_init t =
     t\<lparr>tq_split6k := lp_set (tq_split6k t) 6000 (real_of_int SR),
       tq_gainLow := 1, tq_gainHigh := 1, tq_inited := True\<rparr>"

definition tone_process :: "TiltEQ \<Rightarrow> real \<Rightarrow> real \<times> TiltEQ" where
  "tone_process t x =
     (let t0 = (if \<not> tq_inited t then tone_init t else t);
          (low, f) = lp_process (tq_split6k t0) x;
          high = x - low
      in (tq_gainLow t0 * low + tq_gainHigh t0 * high, t0\<lparr>tq_split6k := f\<rparr>))"

definition NOISE_DRY_GAIN :: real where
  "NOISE_DRY_GAIN = 0"

definition NOISE_FX_GAIN :: real where
  "NOISE_FX_GAIN = 0.12"

definition CTR :: real where
  "CTR = 0.70710678"

text \<open>The part of the per-sample body of \<open>loop()\<close> from the noise gains to \<open>outMono\<close>,
  for the pad sample \<open>padMono\<close>, the pluck sum \<open>plMono\<close> and the noise sample \<open>n\<close> of
  this sample. It returns \<open>dryMono\<close>, \<open>outMono\<close> and the updated effect state.\<close>

definition render_mix ::
  "TiltEQ \<Rightarrow> Delay \<Rightarrow> ReverbLite \<Rightarrow> real \<Rightarrow> real \<Rightarrow> real \<Rightarrow>
     (real \<times> real \<times> TiltEQ \<times> Delay \<times> ReverbLite) option" where
  "render_mix tq dl rv padMono plMono n =
     (let noiseDry = n * NOISE_DRY_GAIN;
          noiseFx = n * NOISE_FX_GAIN;
          dryMono = padMono * CTR + plMono + noiseDry;
          (dryFX, tq1) = tone_process tq (dryMono + noiseFx)
      in case delay_step dl dryFX of
           None \<Rightarrow> None
         | Some (wetTap, dl1) \<Rightarrow>
             (case reverb_step rv dryFX of
                None \<Rightarrow> None
              | Some (wetRev, rv1) \<Rightarrow>
                  (let wetSum = dl_wet dl1 * wetTap + rv_wet rv1 * wetRev;
                       outMono = dryMono + wetSum * CTR
                   in Some (dryMono, outMono, tq1, dl1, rv1))))"

text \<open>The member initialisers of \<open>OnePoleLP\<close>, \<open>Delay\<close>, \<open>CombLite\<close>,
  \<open>AllpassLite\<close>, \<open>ReverbLite\<close> and \<open>TiltEQ\<close>; the static array of the delay starts
  zeroed, and the buffer pointers of the reverb start as \<open>nullptr\<close>, here the empty
  list.\<close>

definition OnePoleLP_default :: OnePoleLP where
  "OnePoleLP_default = \<lparr>lp_a = 0, lp_y = 0\<rparr>"

definition Delay_default :: Delay where
  "Delay_default =
     \<lparr>dl_buf = replicate DELAY_MAX_SAMPLES 0, dl_size = of_nat DELAY_MAX_SAMPLES, dl_w = 0,
      dl_dSamp = 22050, dl_tone = OnePoleLP_default, dl_baseSend = 0, dl_baseWet = 0,
      dl_send = 0, dl_wet = 0, dl_fb = 0, dl_bpmCached = 104, dl_mode = DELAY_1_8,
      dl_inited = False\<rparr>"

definition CombLite_default :: CombLite where
  "CombLite_default =
     \<lparr>cb_buf = [], cb_size = 0, cb_w = 0, cb_fb = 0.62, cb_damp = 0.22, cb_filt = 0\<rparr>"

definition AllpassLite_default :: AllpassLite where
  "AllpassLite_default = \<lparr>ap_buf = [], ap_size = 0, ap_w = 0, ap_g = 0.5\<rparr>"

definition ReverbLite_default :: ReverbLite where
  "ReverbLite_default =
     \<lparr>rv_c = replicate 4 CombLite_default, rv_ap1 = AllpassLite_default,
      rv_ap2 = AllpassLite_default, rv_baseSend = 0, rv_baseWet = 0, rv_send = 0,
      rv_wet = 0, rv_inited = False\<rparr>"

definition TiltEQ_default :: TiltEQ where
  "TiltEQ_default =
     \<lparr>tq_split6k = OnePoleLP_default, tq_gainLow = 1, tq_gainHigh = 1, tq_inited = False\<rparr>"

text \<open>For the theorems: a delay line is usable when it has a positive size within its
  array and its write cursor inside it, and it is in range when moreover no cell holds
  \<open>-32768\<close>, so that every cell read back through \<open>of_q15\<close> lies in \<open>[-1, 1]\<close>. A
  comb and an allpass are usable when their cursor is inside their size and their size
  within their array. A reverb is usable when it has four combs and is either not yet
  initialised or has usable combs and allpasses.\<close>

definition delay_usable :: "Delay \<Rightarrow> bool" where
  "delay_usable dl =
     (dl_size dl \<noteq> 0 \<and> unat (dl_size dl) \<le> length (dl_buf dl) \<and> dl_w dl < dl_size dl)"

definition delay_ok :: "Delay \<Rightarrow> bool" where
  "delay_ok dl =
     (delay_usable dl \<and> list_all (\<lambda>v. - 1 \<le> of_q15 v \<and> of_q15 v \<le> 1) (dl_buf dl))"

definition comb_ok :: "CombLite \<Rightarrow> bool" where
  "comb_ok c = (cb_w c < cb_size c \<and> unat (cb_size c) \<le> length (cb_buf c))"

definition allpass_ok :: "AllpassLite \<Rightarrow> bool" where
  "allpass_ok a = (ap_w a < ap_size a \<and> unat (ap_size a) \<le> length (ap_buf a))"

definition reverb_ok :: "ReverbLite \<Rightarrow> bool" where
  "reverb_ok r =
     (length (rv_c r) = 4 \<and>
      (\<not> rv_inited r \<or>
       (list_all comb_ok (rv_c r) \<and> allpass_ok (rv_ap1 r) \<and> allpass_ok (rv_ap2 r))))"

text \<open>The delay and the reverb as \<open>setup()\<close> leaves them after its calls
  \<open>delay_init(gDelay, 104, DELAY_1_4, 2800.0f)\<close> and \<open>delay_set_space(gDelay, 45)\<close>.\<close>

definition setup_fx :: "Delay \<times> ReverbLite" where
  "setup_fx =
     delay_set_space (delay_init Delay_default 104 DELAY_1_4 2800) ReverbLite_default 45"

section \<open>Random numbers and note choice\<close>

text \<open>\<open>rng32\<close> is xorshift32 on the global \<open>gRng32\<close>; the new state is also the value
  returned. \<open>rand01\<close> scales it by \<open>1 / 2^32\<close>.\<close>

definition rng32 :: "32 word \<Rightarrow> 32 word" where
  "rng32 x0 =
     (let x1 = x0 XOR push_bit 13 x0;
          x2 = x1 XOR drop_bit 17 x1
      in x2 XOR push_bit 5 x2)"

definition rand01 :: "32 word \<Rightarrow> real \<times> 32 word" where
  "rand01 g = (let x = rng32 g in (real (unat x) * (1 / 4294967296), x))"

text \<open>The pool that \<open>pickAmbientNote\<close> builds: for the octaves 2 to 6 and each degree
  \<open>i\<close>, the note \<open>octave * 12 + sd.rootPC + sd.degrees[i]\<close> if it lies in 36 to 96.\<close>

definition ambient_pool :: "Scale \<Rightarrow> int list" where
  "ambient_pool s =
     (let sd = scaleDef s
      in concat (map (\<lambda>octave.
                   filter (\<lambda>m. 36 \<le> m \<and> m \<le> 96)
                     (map (\<lambda>i. (octave * 12 + rootPC sd) + degrees sd ! i) [0..<count sd]))
                 [2, 3, 4, 5, 6]))"

text \<open>\<open>(rng32() & 1) ? +7 : -5\<close> for the value \<open>r\<close> that \<open>rng32()\<close> returned.\<close>

definition interval_jump :: "32 word \<Rightarrow> int" where
  "interval_jump r = (if r AND 1 \<noteq> 0 then 7 else - 5)"

text \<open>\<open>pickAmbientNote\<close> on its static \<open>last\<close> (here \<open>last0\<close>) and the global
  \<open>gRng32\<close>: it returns the note, the new \<open>last\<close> and the new generator state. The unused argument \<open>centerMidi\<close>
  is left out. An empty pool would make \<open>rng32() % n\<close> a remainder by zero: \<open>None\<close>.\<close>

definition pickAmbientNote :: "Scale \<Rightarrow> int \<Rightarrow> 32 word \<Rightarrow> (int \<times> int \<times> 32 word) option" where
  "pickAmbientNote s last0 g0 =
     (let pool = ambient_pool s;
          n = length pool
      in if n = 0 then None
         else
           (let g1 = rng32 g0;
                cand0 = pool ! (unat g1 mod n);
                (u1, g2) = rand01 g1
            in if u1 < 0.10 then Some (last0, last0, g2)
               else
                 (let (u2, g3) = rand01 g2;
                      (cand1, g4) =
                        (if u2 < 0.15
                         then (let g = rng32 g3 in (cand0 + interval_jump g, g))
                         else (cand0, g3));
                      (cand2, g5) =
                        (if \<bar>cand1 - last0\<bar> < 3
                         then (let g = rng32 g4 in (cand1 + interval_jump g, g))
                         else (cand1, g4));
                      cand3 = (if cand2 < 36 then 36 else cand2);
                      cand4 = (if cand3 > 96 then 96 else cand3);
                      q = quantizeMidi cand4 s
                  in Some (q, q, g5))))"

section \<open>Pad, energy and the globals of the sketch\<close>

record Osc =
  osc_phase :: real
  osc_freqHz :: real
  osc_triMix :: real

record Pad =
  pad_v1 :: Osc
  pad_v2 :: Osc
  pad_v3 :: Osc
  pad_baseHz :: real
  pad_det :: real
  pad_triMix :: real
  pad_ampLfoPhase :: real
  pad_ampLfoRateHz :: real
  pad_ampLfoDepth :: real
  pad_lp :: OnePoleLP
  pad_lpfCutHz :: real
  pad_inited :: bool

record Params =
  volumePercent :: int
  tempoBPM :: int
  spacePercent :: int
  moodPercent :: int
  tonePercent :: int
  energyPercent :: int

record EnergyCtrl =
  en_pStrong :: real
  en_pEven :: real
  en_pOdd :: real
  en_ampLfoRateHz :: real
  en_ampLfoDepth :: real
  en_gestureLambdaHz :: real
  en_nextGestureAt :: "64 word"

text \<open>\<open>energy_set\<close> writes the energy controller and the amplitude LFO of the pad.\<close>

definition energy_set :: "EnergyCtrl \<Rightarrow> Pad \<Rightarrow> int \<Rightarrow> EnergyCtrl \<times> Pad" where
  "energy_set e pd energyPct =
     (let pct = (if energyPct < 0 then 0 else energyPct);
          pct1 = (if pct > 100 then 100 else pct);
          u = real_of_int pct1 * (1 / 100);
          u1 = sqrt u;
          rate = 0.04 + (0.18 - 0.04) * u1;
          depth = 0.15 + (0.32 - 0.15) * u1
      in (e\<lparr>en_pStrong := constrain (0.40 * (0.7 + 1.2 * u1)) 0.10 0.85,
             en_pEven := constrain (0.22 * (0.7 + 1.2 * u1)) 0.05 0.55,
             en_pOdd := constrain (0.08 * (0.7 + 1.2 * u1)) 0.02 0.30,
             en_ampLfoRateHz := rate, en_ampLfoDepth := depth,
             en_gestureLambdaHz := (1 / 30) + ((1 / 6) - (1 / 30)) * u1\<rparr>,
          pd\<lparr>pad_ampLfoRateHz := rate, pad_ampLfoDepth := depth\<rparr>))"

record SceneTargets =
  sc_scale :: Scale
  sc_triMix :: real
  sc_lpfCutHz :: real
  sc_spacePercent :: int
  sc_delayMode :: DelayMode
  sc_tempoBPM :: int

record SceneXfade =
  xf_active :: bool
  xf_tStartSmp :: "64 word"
  xf_tEndSmp :: "64 word"
  xf_start :: SceneTargets
  xf_target :: SceneTargets

record SceneScheduler =
  ss_nextSceneAt :: "64 word"
  ss_minIntvSmp :: "32 word"
  ss_maxIntvSmp :: "32 word"
  ss_inited :: bool

text \<open>The globals that \<open>onStep16\<close> and \<open>scene_update\<close> read and write, under their names
  in the sketch; \<open>step_lastBar\<close> and \<open>step_wob\<close> are the statics \<open>lastBar\<close> and \<open>wob\<close> of
  \<open>onStep16\<close>, and \<open>note_last\<close> is the static \<open>last\<close> of \<open>pickAmbientNote\<close>.\<close>

record Engine =
  gRng32 :: "32 word"
  gScale :: Scale
  gPluck :: PluckPool
  gEnergy :: EnergyCtrl
  step_lastBar :: "16 word"
  step_wob :: real
  note_last :: int
  gScene :: SceneXfade
  gSceneSch :: SceneScheduler
  pad :: Pad
  params :: Params
  gDelay :: Delay
  gReverb :: ReverbLite

section \<open>Step scheduler\<close>

text \<open>The first block of \<open>onStep16\<close>: \<open>bar = step / 16\<close>, and a new wobble
  \<open>0.9f + 0.2f * rand01()\<close> when \<open>bar\<close> differs from the static \<open>lastBar\<close>.\<close>

definition step_wobble :: "16 word \<Rightarrow> Engine \<Rightarrow> Engine" where
  "step_wobble step eng =
     (let bar = step div 16
      in if bar \<noteq> step_lastBar eng
         then (let (u, g) = rand01 (gRng32 eng)
               in eng\<lparr>step_lastBar := bar, step_wob := 0.9 + 0.2 * u, gRng32 := g\<rparr>)
         else eng)"

text \<open>The trigger probability of a step: by beat strength, times the wobble, constrained
  to 0.02 to 0.95.\<close>

definition step_prob :: "16 word \<Rightarrow> Engine \<Rightarrow> real" where
  "step_prob step eng =
     (let p = (if step AND 3 = 0 then en_pStrong (gEnergy eng) * step_wob eng
               else if step AND 1 = 0 then en_pEven (gEnergy eng) * step_wob eng
               else en_pOdd (gEnergy eng) * step_wob eng)
      in constrain p 0.02 0.95)"

text \<open>\<open>onStep16\<close>; \<open>None\<close> where \<open>pickAmbientNote\<close> or \<open>pluck_noteOn\<close> has no defined
  behaviour.\<close>

definition onStep16 :: "16 word \<Rightarrow> Engine \<Rightarrow> Engine option" where
  "onStep16 step eng0 =
     (let eng1 = eng0\<lparr>gPluck := pluck_ready (gPluck eng0)\<rparr>;
          eng2 = step_wobble step eng1;
          p = step_prob step eng2;
          (u, g) = rand01 (gRng32 eng2);
          eng3 = eng2\<lparr>gRng32 := g\<rparr>
      in if u < p
         then (case pickAmbientNote (gScale eng3) (note_last eng3) (gRng32 eng3) of
                 None \<Rightarrow> None
               | Some (note, last1, g1) \<Rightarrow>
                   (let (u1, g2) = rand01 g1;
                        vel = 0.45 + 0.50 * u1
                    in case pluck_noteOn (gPluck eng3) note vel (gScale eng3) of
                         None \<Rightarrow> None
                       | Some pl \<Rightarrow> Some (eng3\<lparr>note_last := last1, gRng32 := g2, gPluck := pl\<rparr>)))
         else Some eng3)"

text \<open>\<open>onStep16\<close> called for a sequence of steps, as the clock does.\<close>

fun onSteps :: "16 word list \<Rightarrow> Engine \<Rightarrow> Engine option" where
  "onSteps [] eng = Some eng"
| "onSteps (s # ss) eng = (case onStep16 s eng of None \<Rightarrow> None | Some eng1 \<Rightarrow> onSteps ss eng1)"

section \<open>Scene crossfade\<close>

text \<open>The helper lambdas of \<open>scene_update\<close>.\<close>

definition lerp :: "real \<Rightarrow> real \<Rightarrow> real \<Rightarrow> real" where
  "lerp a b t = a + (b - a) * t"

definition smooth :: "real \<Rightarrow> real" where
  "smooth t =
     (let t1 = (if t < 0 then 0 else if t > 1 then 1 else t)
      in t1 * t1 * (3 - 2 * t1))"

definition expLerp :: "real \<Rightarrow> real \<Rightarrow> real \<Rightarrow> real" where
  "expLerp aHz bHz t = exp (lerp (ln aHz) (ln bHz) t)"

text \<open>The next scene time \<open>nowSmp + minIntvSmp + (uint32_t)((maxIntvSmp - minIntvSmp) *
  rand01())\<close>, in 64-bit arithmetic, for the value \<open>u\<close> of \<open>rand01()\<close>.\<close>

definition next_scene_at :: "64 word \<Rightarrow> SceneScheduler \<Rightarrow> real \<Rightarrow> 64 word" where
  "next_scene_at nowSmp ss u =
     nowSmp + ucast (ss_minIntvSmp ss) +
     ucast (word_of_int (truncf (real (unat (ss_maxIntvSmp ss - ss_minIntvSmp ss)) * u))
              :: 32 word)"

text \<open>First block of \<open>scene_update\<close>: the scheduler window of 120 to 240 seconds.\<close>

definition scene_sched_init :: "64 word \<Rightarrow> Engine \<Rightarrow> Engine" where
  "scene_sched_init nowSmp eng =
     (if \<not> ss_inited (gSceneSch eng)
      then (let ss1 = (gSceneSch eng)
                  \<lparr>ss_minIntvSmp := word_of_int (truncf (120 * real_of_int SR + 0.5)),
                   ss_maxIntvSmp := word_of_int (truncf (240 * real_of_int SR + 0.5))\<rparr>;
                (u, g) = rand01 (gRng32 eng)
            in eng\<lparr>gSceneSch := ss1\<lparr>ss_nextSceneAt := next_scene_at nowSmp ss1 u,
                                     ss_inited := True\<rparr>,
                    gRng32 := g\<rparr>)
      else eng)"

text \<open>Second block: when no fade is active and a scene is due, snapshot the live values
  as the start, draw the targets and the duration, and schedule the next scene. The
  eight calls of \<open>rand01()\<close> are threaded in the order of the source; the calls that draw
  the banner on the display are left out.\<close>

definition scene_start :: "64 word \<Rightarrow> Engine \<Rightarrow> Engine" where
  "scene_start nowSmp eng =
     (if \<not> xf_active (gScene eng) \<and> nowSmp \<ge> ss_nextSceneAt (gSceneSch eng)
      then
        (let start = \<lparr>sc_scale = gScale eng, sc_triMix = pad_triMix (pad eng),
                      sc_lpfCutHz = pad_lpfCutHz (pad eng),
                      sc_spacePercent = spacePercent (params eng),
                      sc_delayMode = dl_mode (gDelay eng),
                      sc_tempoBPM = tempoBPM (params eng)\<rparr>;
             (u1, g1) = rand01 (gRng32 eng);
             r0 = truncf (u1 * 3);
             r1 = (if r0 < 0 then 0 else r0);
             r = (if r1 > 2 then 2 else r1);
             (u2, g2) = rand01 g1;
             (u3, g3) = rand01 g2;
             (u4, g4) = rand01 g3;
             (u5, g5) = rand01 g4;
             (u6, g6) = rand01 g5;
             f = 0.95 + 0.10 * u6;
             tBpm0 = truncf (real_of_int (tempoBPM (params eng)) * f + 0.5);
             tBpm1 = (if tBpm0 < 30 then 30 else tBpm0);
             tBpm = (if tBpm1 > 240 then 240 else tBpm1);
             target = \<lparr>sc_scale = (if r = 0 then SCALE_A_MINOR
                                    else if r = 1 then SCALE_D_DORIAN else SCALE_C_LYDIAN),
                       sc_triMix = 0.15 + 0.50 * u2,
                       sc_lpfCutHz = 400 * (20 powr u3),
                       sc_spacePercent = 10 + truncf (60 * u4 + 0.5),
                       sc_delayMode = (if u5 < 0.5 then DELAY_1_8 else DELAY_1_4),
                       sc_tempoBPM = tBpm\<rparr>;
             (u7, g7) = rand01 g6;
             durSec = 10 + 10 * u7;
             durSmp = (word_of_int (truncf (durSec * real_of_int SR + 0.5)) :: 64 word);
             (u8, g8) = rand01 g7
         in eng\<lparr>gScene := \<lparr>xf_active = True, xf_tStartSmp = nowSmp,
                           xf_tEndSmp = nowSmp + (if durSmp \<noteq> 0 then durSmp else 1),
                           xf_start = start, xf_target = target\<rparr>,
                 gSceneSch := (gSceneSch eng)
                    \<lparr>ss_nextSceneAt := next_scene_at nowSmp (gSceneSch eng) u8\<rparr>,
                 gRng32 := g8\<rparr>)
      else eng)"

text \<open>Third block, the crossfade. The elapsed fraction \<open>t\<close>: the 64-bit differences
  \<open>num\<close> and \<open>den\<close> converted to \<open>float\<close> and divided.\<close>

definition scene_t :: "64 word \<Rightarrow> SceneXfade \<Rightarrow> real" where
  "scene_t nowSmp xf =
     (if xf_tEndSmp xf > xf_tStartSmp xf
      then (let num = (if nowSmp > xf_tEndSmp xf then xf_tEndSmp xf - xf_tStartSmp xf
                       else nowSmp - xf_tStartSmp xf);
                den = xf_tEndSmp xf - xf_tStartSmp xf
            in real (unat num) / real (unat den))
      else 0)"

text \<open>\<open>triMix\<close>: linear, written to the pad and its three oscillators.\<close>

definition xfade_tri :: "real \<Rightarrow> Engine \<Rightarrow> Engine" where
  "xfade_tri e eng =
     (let tri = lerp (sc_triMix (xf_start (gScene eng))) (sc_triMix (xf_target (gScene eng))) e;
          pd = pad eng
      in eng\<lparr>pad := pd\<lparr>pad_triMix := tri,
                          pad_v1 := (pad_v1 pd)\<lparr>osc_triMix := tri\<rparr>,
                          pad_v2 := (pad_v2 pd)\<lparr>osc_triMix := tri\<rparr>,
                          pad_v3 := (pad_v3 pd)\<lparr>osc_triMix := tri\<rparr>\<rparr>\<rparr>)"

text \<open>Filter cutoff: interpolated in log space, then \<open>lp_set\<close>.\<close>

definition xfade_cut :: "real \<Rightarrow> Engine \<Rightarrow> Engine" where
  "xfade_cut e eng =
     (let cut = expLerp (sc_lpfCutHz (xf_start (gScene eng)))
                        (sc_lpfCutHz (xf_target (gScene eng))) e;
          pd = pad eng
      in eng\<lparr>pad := pd\<lparr>pad_lpfCutHz := cut,
                          pad_lp := lp_set (pad_lp pd) cut (real_of_int SR)\<rparr>\<rparr>)"

text \<open>Space: \<open>(int)(lerp(...) + 0.5f)\<close>, clamped to 0 to 100, and \<open>delay_set_space\<close> when
  the value changes.\<close>

definition xfade_space :: "real \<Rightarrow> Engine \<Rightarrow> Engine" where
  "xfade_space e eng =
     (let spc0 = truncf (lerp (real_of_int (sc_spacePercent (xf_start (gScene eng))))
                              (real_of_int (sc_spacePercent (xf_target (gScene eng)))) e + 0.5);
          spc1 = (if spc0 < 0 then 0 else spc0);
          spc = (if spc1 > 100 then 100 else spc1)
      in if spc \<noteq> spacePercent (params eng)
         then (let (dl, rv) = delay_set_space (gDelay eng) (gReverb eng) spc
               in eng\<lparr>params := (params eng)\<lparr>spacePercent := spc\<rparr>,
                       gDelay := dl, gReverb := rv\<rparr>)
         else eng)"

text \<open>Tempo: \<open>(int)(lerp(...) + 0.5f)\<close>, clamped to 30 to 240.\<close>

definition xfade_tempo :: "real \<Rightarrow> Engine \<Rightarrow> Engine" where
  "xfade_tempo e eng =
     (let bpm0 = truncf (lerp (real_of_int (sc_tempoBPM (xf_start (gScene eng))))
                              (real_of_int (sc_tempoBPM (xf_target (gScene eng)))) e + 0.5);
          bpm1 = (if bpm0 < 30 then 30 else bpm0);
          bpm2 = (if bpm1 > 240 then 240 else bpm1)
      in if bpm2 \<noteq> tempoBPM (params eng)
         then eng\<lparr>params := (params eng)\<lparr>tempoBPM := bpm2\<rparr>\<rparr>
         else eng)"

text \<open>Scale: switched once \<open>e >= 0.2\<close>, also in the stored start values.\<close>

definition xfade_scale :: "real \<Rightarrow> Engine \<Rightarrow> Engine" where
  "xfade_scale e eng =
     (if e \<ge> 0.2
      then eng\<lparr>gScene := (gScene eng)
                   \<lparr>xf_start := (xf_start (gScene eng))
                                  \<lparr>sc_scale := sc_scale (xf_target (gScene eng))\<rparr>\<rparr>,
               gScale := sc_scale (xf_target (gScene eng))\<rparr>
      else eng)"

text \<open>Delay mode: switched once \<open>e >= 0.8\<close>.\<close>

definition xfade_mode :: "real \<Rightarrow> Engine \<Rightarrow> Engine" where
  "xfade_mode e eng =
     (if e \<ge> 0.8 \<and> dl_mode (gDelay eng) \<noteq> sc_delayMode (xf_target (gScene eng))
      then eng\<lparr>gDelay := delay_set_mode (gDelay eng) (sc_delayMode (xf_target (gScene eng)))\<rparr>
      else eng)"

text \<open>End of the fade at \<open>t >= 1\<close>.\<close>

definition xfade_end :: "real \<Rightarrow> Engine \<Rightarrow> Engine" where
  "xfade_end t eng =
     (if t \<ge> 1 then eng\<lparr>gScene := (gScene eng)\<lparr>xf_active := False\<rparr>\<rparr> else eng)"

definition scene_xfade :: "64 word \<Rightarrow> Engine \<Rightarrow> Engine" where
  "scene_xfade nowSmp eng =
     (if xf_active (gScene eng)
      then (let t = scene_t nowSmp (gScene eng);
                e = smooth t
            in xfade_end t (xfade_mode e (xfade_scale e (xfade_tempo e
                 (xfade_space e (xfade_cut e (xfade_tri e eng)))))))
      else eng)"

definition scene_update :: "64 word \<Rightarrow> Engine \<Rightarrow> Engine" where
  "scene_update nowSmp eng = scene_xfade nowSmp (scene_start nowSmp (scene_sched_init nowSmp eng))"

section \<open>Initial values of the globals\<close>

text \<open>The member initialisers of the remaining structs and the static initialisation
  of the globals, before \<open>setup()\<close> runs: \<open>params = { 70, 100 }\<close>, zeroed scene records,
  \<open>gScale = SCALE_A_MINOR\<close>, \<open>gRng32 = 0xA3C59AC3\<close>, and the function statics
  \<open>lastBar = 0\<close>, \<open>wob = 1.0f\<close> and \<open>last = 60\<close>.\<close>

definition Osc_default :: Osc where
  "Osc_default = \<lparr>osc_phase = 0, osc_freqHz = 0, osc_triMix = 0.30\<rparr>"

definition Pad_default :: Pad where
  "Pad_default =
     \<lparr>pad_v1 = Osc_default, pad_v2 = Osc_default, pad_v3 = Osc_default, pad_baseHz = 180,
      pad_det = 0, pad_triMix = 0.18, pad_ampLfoPhase = 0, pad_ampLfoRateHz = 0.05,
      pad_ampLfoDepth = 0.18, pad_lp = OnePoleLP_default, pad_lpfCutHz = 1200,
      pad_inited = False\<rparr>"

definition Params_init :: Params where
  "Params_init =
     \<lparr>volumePercent = 70, tempoBPM = 100, spacePercent = 0, moodPercent = 0,
      tonePercent = 0, energyPercent = 0\<rparr>"

definition EnergyCtrl_default :: EnergyCtrl where
  "EnergyCtrl_default =
     \<lparr>en_pStrong = 0.40, en_pEven = 0.22, en_pOdd = 0.08, en_ampLfoRateHz = 0.08,
      en_ampLfoDepth = 0.25, en_gestureLambdaHz = 1 / 12, en_nextGestureAt = 0\<rparr>"

definition PluckPool_default :: PluckPool where
  "PluckPool_default =
     \<lparr>pool_v = replicate 4 PluckVoice_default, pool_gain = 0.35, pool_inited = False\<rparr>"

definition SceneTargets_zero :: SceneTargets where
  "SceneTargets_zero =
     \<lparr>sc_scale = SCALE_C_MINOR, sc_triMix = 0, sc_lpfCutHz = 0, sc_spacePercent = 0,
      sc_delayMode = DELAY_1_8, sc_tempoBPM = 0\<rparr>"

definition SceneXfade_default :: SceneXfade where
  "SceneXfade_default =
     \<lparr>xf_active = False, xf_tStartSmp = 0, xf_tEndSmp = 0, xf_start = SceneTargets_zero,
      xf_target = SceneTargets_zero\<rparr>"

definition SceneScheduler_default :: SceneScheduler where
  "SceneScheduler_default =
     \<lparr>ss_nextSceneAt = 0, ss_minIntvSmp = 0, ss_maxIntvSmp = 0, ss_inited = False\<rparr>"

definition Engine_init :: Engine where
  "Engine_init =
     \<lparr>gRng32 = 0xA3C59AC3, gScale = SCALE_A_MINOR, gPluck = PluckPool_default,
      gEnergy = EnergyCtrl_default, step_lastBar = 0, step_wob = 1, note_last = 60,
      gScene = SceneXfade_default, gSceneSch = SceneScheduler_default, pad = Pad_default,
      params = Params_init, gDelay = Delay_default, gReverb = ReverbLite_default\<rparr>"


section \<open>Properties of the musical clock\<close>

lemma and15: "(x::16 word) AND 0x0F = of_nat (unat x mod 16)"
proof -
  have "x AND 0x0F = x AND mask 4" by (simp add: mask_eq_exp_minus_1)
  also have "\<dots> = take_bit 4 x" by (simp add: take_bit_eq_mask)
  also have "\<dots> = x mod 16" by (simp add: take_bit_eq_mod)
  also have "\<dots> = of_nat (unat x mod 16)"
    by (subst word_arith_nat_mod) simp
  finally show ?thesis .
qed

lemma unat_ucast_32_64: "unat (ucast (x :: 32 word) :: 64 word) = unat x"
  by (simp add: unsigned_ucast_eq take_bit_nat_eq_self_iff) (rule less_trans[OF unsigned_less], simp)

lemma tick_step: "step16 c = of_nat (j mod 16) \<Longrightarrow> step16 (clock_tick c) = of_nat (Suc j mod 16)"
proof -
  assume a: "step16 c = of_nat (j mod 16)"
  have u: "unat (of_nat (j mod 16) :: 16 word) = j mod 16"
    by (simp add: unat_of_nat take_bit_eq_mod) 
  have "unat ((of_nat (j mod 16) :: 16 word) + 1) = j mod 16 + 1"
    using u by (simp add: unat_word_ariths)
  then show ?thesis using a by (simp add: clock_tick_def and15 mod_Suc_eq)
qed

lemma clock_loop_inv:
  fixes c :: Clock16
  assumes p: "0 < unat (samplesPerTick c)"
    and m: "m = unat E div unat (samplesPerTick c)"
    and nw: "(m + 1) * unat (samplesPerTick c) < 2 ^ 64"
  shows "j \<le> m \<Longrightarrow> unat (nextTickAt c) = (j + 1) * unat (samplesPerTick c) \<Longrightarrow>
         step16 c = of_nat (j mod 16) \<Longrightarrow>
         clock_loop h E c s =
           Some (c\<lparr>step16 := of_nat (m mod 16),
                   nextTickAt := of_nat ((m + 1) * unat (samplesPerTick c))\<rparr>,
                 fold h (map (\<lambda>i. of_nat (i mod 16)) [j..<m]) s)"
  using p m nw
proof (induction "m - j" arbitrary: j c s)
  case 0
  then have jm: "j = m" by simp
  have "unat E < (m + 1) * unat (samplesPerTick c)"
    using "0.prems" dividend_less_times_div[of "unat (samplesPerTick c)" "unat E"] by (simp add: mult.commute)
  then have "\<not> nextTickAt c \<le> E"
    using 0 jm by (simp add: word_le_nat_alt)
  moreover have "nextTickAt c = of_nat ((m + 1) * unat (samplesPerTick c))"
    using "0.prems"(2) jm by (metis of_nat_unat ucast_id)
  then have "c\<lparr>step16 := of_nat (m mod 16),
                   nextTickAt := of_nat ((m + 1) * unat (samplesPerTick c))\<rparr> = c"
    using "0.prems"(3) jm by simp
  ultimately show ?case using jm by (subst clock_loop.simps) simp
next
  case (Suc k)
  let ?p = "unat (samplesPerTick c)"
  have jm: "j < m" using Suc by simp
  have "(j + 1) * ?p \<le> m * ?p" using jm by (intro mult_le_mono1) simp
  also have "m * ?p \<le> unat E" using Suc.prems by simp
  finally have le: "nextTickAt c \<le> E" using Suc.prems by (simp add: word_le_nat_alt)
  let ?c = "clock_tick c"
  have spt: "samplesPerTick ?c = samplesPerTick c" by (simp add: clock_tick_def)
  have "(j + 2) * ?p \<le> (m + 1) * ?p" using jm by (intro mult_le_mono1) simp
  then have lt: "(j + 2) * ?p < 2 ^ 64" using Suc.prems by simp
  have up: "unat (ucast (samplesPerTick c) :: 64 word) = ?p"
    by (rule unat_ucast_32_64)
  have "unat (nextTickAt c) + unat (ucast (samplesPerTick c) :: 64 word) = (j + 2) * ?p"
    using Suc.prems up by simp
  then have nt: "unat (nextTickAt ?c) = (Suc j + 1) * ?p"
    using lt by (simp add: clock_tick_def unat_word_ariths)
  have st: "step16 ?c = of_nat (Suc j mod 16)" using Suc.prems by (simp add: tick_step)
  have k: "k = m - Suc j" using Suc by simp
  have IH: "clock_loop h E ?c (h (step16 c) s) =
           Some (?c\<lparr>step16 := of_nat (m mod 16),
                   nextTickAt := of_nat ((m + 1) * unat (samplesPerTick ?c))\<rparr>,
                 fold h (map (\<lambda>i. of_nat (i mod 16)) [Suc j..<m]) (h (step16 c) s))"
    using Suc.hyps(1)[of "Suc j" ?c "h (step16 c) s"] k nt st jm Suc.prems(4,5,6) spt by simp
  have upd: "?c\<lparr>step16 := of_nat (m mod 16),
                   nextTickAt := of_nat ((m + 1) * unat (samplesPerTick ?c))\<rparr>
           = c\<lparr>step16 := of_nat (m mod 16),
                   nextTickAt := of_nat ((m + 1) * ?p)\<rparr>"
    by (simp add: clock_tick_def)
  have fl: "fold h (map (\<lambda>i. of_nat (i mod 16)) [j..<m]) s
          = fold h (map (\<lambda>i. of_nat (i mod 16)) [Suc j..<m]) (h (step16 c) s)"
    using jm Suc.prems by (simp add: upt_conv_Cons)
  have "clock_loop h E c s = clock_loop h E ?c (h (step16 c) s)"
    by (subst clock_loop.simps) (simp only: le if_True)
  then show ?case
    by (simp only: IH upd fl)
qed

lemma div_succ_bound: "0 < (p::nat) \<Longrightarrow> (E div p + 1) * p \<le> E + p"
  by (simp add: algebra_simps)

lemma unat_of_nat_64: "n < 2 ^ 64 \<Longrightarrow> unat (of_nat n :: 64 word) = n"
  by (simp add: unat_of_nat take_bit_nat_eq_self_iff)

lemma clock_advance_block_after:
  assumes p: "0 < unat spt" and nw: "N + unat b + unat spt < 2 ^ 64"
  shows "clock_advance_block h (clock_after spt bw N) b s =
           Some (clock_after spt bw (N + unat b),
                 fold h (map (\<lambda>i. of_nat (i mod 16)) [N div unat spt..<(N + unat b) div unat spt]) s)"
proof -
  let ?c = "clock_after spt bw N"
  let ?E = "smpNow ?c + ucast b"
  let ?p = "unat spt"
  have uN: "unat (of_nat N :: 64 word) = N"
    using nw by (simp add: unat_of_nat take_bit_nat_eq_self_iff)
  have uE: "unat ?E = N + unat b"
    using nw uN by (simp add: clock_after_def unat_word_ariths unat_ucast_32_64)
  have E: "?E = of_nat (N + unat b)"
    using uE by (metis of_nat_unat ucast_id)
  let ?m = "unat ?E div ?p"
  have b1: "(N div ?p + 1) * ?p \<le> N + ?p" using p by (rule div_succ_bound)
  have b2: "(?m + 1) * ?p \<le> unat ?E + ?p" using p by (rule div_succ_bound)
  have "(N div ?p + 1) * ?p < 2 ^ 64"
    by (rule le_less_trans[OF b1]) (use nw in simp)
  then have "unat (of_nat ((N div ?p + 1) * ?p) :: 64 word) = (N div ?p + 1) * ?p"
    by (rule unat_of_nat_64)
  then have nt: "unat (nextTickAt ?c) = (N div ?p + 1) * ?p"
    unfolding clock_after_def by (simp only: Clock16.simps)
  have "clock_loop h ?E ?c s =
           Some (?c\<lparr>step16 := of_nat (?m mod 16),
                   nextTickAt := of_nat ((?m + 1) * unat (samplesPerTick ?c))\<rparr>,
                 fold h (map (\<lambda>i. of_nat (i mod 16)) [N div ?p..<?m]) s)"
  proof (rule clock_loop_inv)
    show "0 < unat (samplesPerTick ?c)" using p by (simp add: clock_after_def)
    show "?m = unat ?E div unat (samplesPerTick ?c)" by (simp add: clock_after_def)
    have "(?m + 1) * ?p < 2 ^ 64"
      by (rule le_less_trans[OF b2]) (use nw uE in simp)
    then show "(?m + 1) * unat (samplesPerTick ?c) < 2 ^ 64"
      unfolding clock_after_def by (simp only: Clock16.simps)
    show "N div ?p \<le> ?m" using uE by (simp add: div_le_mono)
    show "unat (nextTickAt ?c) = (N div ?p + 1) * unat (samplesPerTick ?c)"
      using nt by (simp add: clock_after_def)
    show "step16 ?c = of_nat (N div ?p mod 16)" by (simp add: clock_after_def)
  qed
  then show ?thesis
    unfolding clock_advance_block_def Let_def
    by (simp add: uE) (simp add: clock_after_def E)
qed

lemma clock_run_after:
  assumes p: "0 < unat spt"
  shows "N + sum_list (map unat bs) + unat spt < 2 ^ 64 \<Longrightarrow>
         clock_run h (clock_after spt bw N) s bs =
           Some (clock_after spt bw (N + sum_list (map unat bs)),
                 fold h (map (\<lambda>i. of_nat (i mod 16))
                           [N div unat spt..<(N + sum_list (map unat bs)) div unat spt]) s)"
proof (induction bs arbitrary: N s)
  case Nil
  then show ?case by simp
next
  case (Cons b bs)
  let ?p = "unat spt"
  let ?f = "\<lambda>i. of_nat (i mod 16) :: 16 word"
  have nw1: "N + unat b + ?p < 2 ^ 64" using Cons.prems by simp
  have nw2: "(N + unat b) + sum_list (map unat bs) + ?p < 2 ^ 64" using Cons.prems by simp
  have le1: "N div ?p \<le> (N + unat b) div ?p" by (simp add: div_le_mono)
  have le2: "(N + unat b) div ?p \<le> (N + unat b + sum_list (map unat bs)) div ?p"
    by (simp add: div_le_mono)
  have split: "[N div ?p..<(N + unat b + sum_list (map unat bs)) div ?p] =
               [N div ?p..<(N + unat b) div ?p] @
               [(N + unat b) div ?p..<(N + unat b + sum_list (map unat bs)) div ?p]"
    using le1 le2 by (metis le_Suc_ex upt_add_eq_append)
  have sum: "N + sum_list (map unat (b # bs)) = N + unat b + sum_list (map unat bs)"
    by simp
  have "clock_run h (clock_after spt bw N) s (b # bs) =
        clock_run h (clock_after spt bw (N + unat b))
          (fold h (map ?f [N div ?p..<(N + unat b) div ?p]) s) bs"
    by (simp add: clock_advance_block_after[OF p nw1])
  also have "\<dots> = Some (clock_after spt bw (N + unat b + sum_list (map unat bs)),
                 fold h (map ?f [(N + unat b) div ?p..<(N + unat b + sum_list (map unat bs)) div ?p])
                   (fold h (map ?f [N div ?p..<(N + unat b) div ?p]) s))"
    by (rule Cons.IH[OF nw2])
  finally show ?case
    unfolding sum split by simp
qed

lemma fold_record_step: "fold record_step xs tr = tr @ xs"
  by (induction xs arbitrary: tr) (simp_all add: record_step_def)

lemma unat_word_of_int_32: "0 \<le> z \<Longrightarrow> z < 2 ^ 32 \<Longrightarrow> unat (word_of_int z :: 32 word) = nat z"
  by (simp add: unat_eq_nat_uint  uint_word_of_int)

lemma spt_domain:
  assumes "b \<le> 240"
  shows "2756 \<le> unat (clock_spt_from_bpm b) \<and> unat (clock_spt_from_bpm b) \<le> 22050"
proof -
  define b1 where "b1 = (if b < 30 then 30 else b)"
  have r: "30 \<le> b1" "b1 \<le> 240" using assms by (auto simp: b1_def)
  define x where "x = (real_of_int SR * 60) / (real_of_int b1 * 4) + 0.5"
  have x: "x = 661500 / real_of_int b1 + 1 / 2" by (simp add: x_def SR_def)
  have lo: "661500 / 240 \<le> 661500 / real_of_int b1"
    using r by (intro divide_left_mono) auto
  have hi: "661500 / real_of_int b1 \<le> 661500 / 30"
    using r by (intro divide_left_mono) auto
  have "2756 \<le> x" "x < 22051" using lo hi by (simp_all add: x)
  then have fl: "2756 \<le> \<lfloor>x\<rfloor>" "\<lfloor>x\<rfloor> \<le> 22050" by (simp_all add: le_floor_iff floor_le_iff)
  have tr: "truncf x = \<lfloor>x\<rfloor>" using \<open>2756 \<le> x\<close> by (simp add: truncf_def)
  have "clock_spt_from_bpm b = word_of_int (truncf x)"
    unfolding clock_spt_from_bpm_def Let_def x_def b1_def ..
  then have "clock_spt_from_bpm b = word_of_int \<lfloor>x\<rfloor>"
    by (simp only: tr)
  then have "unat (clock_spt_from_bpm b) = nat \<lfloor>x\<rfloor>"
    using fl by (simp add: unat_word_of_int_32)
  moreover have "2756 \<le> nat \<lfloor>x\<rfloor>" "nat \<lfloor>x\<rfloor> \<le> 22050"
    using fl by linarith+
  ultimately show ?thesis by (simp only:)
qed

lemma clock_init_after: "clock_init b = clock_after (clock_spt_from_bpm b) (word_of_int b) 0"
  by (simp add: clock_init_def clock_after_def Let_def)

lemma clock_events_eq:
  assumes b: "b \<le> 240"
    and nw: "sum_list (map unat bs) + unat (clock_spt_from_bpm b) < 2 ^ 64"
  shows "clock_events b bs =
           Some (map (\<lambda>i. of_nat (i mod 16))
                   [0..<sum_list (map unat bs) div unat (clock_spt_from_bpm b)])"
proof -
  have p: "0 < unat (clock_spt_from_bpm b)" using spt_domain[OF b] by simp
  show ?thesis
    using clock_run_after[OF p, of 0 bs record_step "word_of_int b" "[]"] nw
    by (simp add: clock_events_def clock_init_after fold_record_step)
qed

text \<open>
  Claim C1 (chunking-invariant clock). Start the clock with \<open>clock_init\<close> at a tempo
  \<open>b\<close> of at most 240 BPM (a tempo below 30 is clamped to 30) and run
  \<open>clock_advance_block\<close> over any sequence \<open>bs\<close> of block sizes that total \<open>N\<close>
  samples, where the 64-bit sample counter does not wrap (\<open>N + samplesPerTick < 2^64\<close>).
  Then the run returns, and the \<open>onStep16\<close> events it fired are exactly the steps
  \<open>0 mod 16, 1 mod 16, \<dots>, (N div samplesPerTick - 1) mod 16\<close> in this order: there are
  \<open>floor (N / samplesPerTick)\<close> of them and the step index goes up by one modulo 16
  from one event to the next. Every other way of cutting \<open>N\<close> samples into blocks fires
  the same events.
\<close>

theorem clock_chunking_invariant:
  assumes b: "b \<le> 240"
    and nw: "sum_list (map unat bs) + unat (clock_spt_from_bpm b) < 2 ^ 64"
  shows "clock_events b bs =
           Some (map (\<lambda>i. of_nat (i mod 16))
                   [0..<sum_list (map unat bs) div unat (clock_spt_from_bpm b)]) \<and>
         (\<forall>bs'. sum_list (map unat bs') = sum_list (map unat bs) \<longrightarrow>
                clock_events b bs' = clock_events b bs)"
proof (intro conjI allI impI)
  show "clock_events b bs =
           Some (map (\<lambda>i. of_nat (i mod 16))
                   [0..<sum_list (map unat bs) div unat (clock_spt_from_bpm b)])"
    by (rule clock_events_eq[OF b nw])
next
  fix bs' :: "32 word list"
  assume eq: "sum_list (map unat bs') = sum_list (map unat bs)"
  then have "sum_list (map unat bs') + unat (clock_spt_from_bpm b) < 2 ^ 64"
    using nw by simp
  then show "clock_events b bs' = clock_events b bs"
    by (simp only: clock_events_eq[OF b] clock_events_eq[OF b nw] eq)
qed

lemma spt_104: "clock_spt_from_bpm 104 = 6361"
  by (simp add: clock_spt_from_bpm_def SR_def truncf_def)

text \<open>The theorem at 104 BPM (6361 samples per tick): 13256 samples cut in three
  blocks or in two fire the steps 0 and 1.\<close>

theorem clock_chunking_invariant_witness:
  "(104::int) \<le> 240 \<and>
   clock_events 104 [256, 7000, 6000] = Some [0, 1] \<and>
   clock_events 104 [13000, 256] = Some [0, 1]"
proof -
  have N: "[0..<2] = [0, 1]" by (simp add: upt_rec)
  have "clock_events 104 [256, 7000, 6000] = Some [0, 1]"
    using clock_chunking_invariant[of 104 "[256, 7000, 6000]"] by (simp add: spt_104 N)
  moreover have "clock_events 104 [13000, 256] = clock_events 104 [256, 7000, 6000]"
    using clock_chunking_invariant[of 104 "[256, 7000, 6000]"] by (simp add: spt_104)
  ultimately show ?thesis by simp
qed

lemma clock_loop_total:
  fixes c :: Clock16
  assumes p: "0 < unat (samplesPerTick c)"
    and nw: "unat E + unat (samplesPerTick c) < 2 ^ 64"
  shows "\<exists>c' steps. clock_loop h E c s = Some (c', fold h steps s) \<and>
           samplesPerTick c' = samplesPerTick c \<and> E < nextTickAt c' \<and>
           length steps * unat (samplesPerTick c)
             \<le> Suc (unat E) - unat (nextTickAt c) + (unat (samplesPerTick c) - 1)"
  using p nw
proof (induction "Suc (unat E) - unat (nextTickAt c)" arbitrary: c s rule: less_induct)
  case less
  let ?p = "unat (samplesPerTick c)"
  show ?case
  proof (cases "nextTickAt c \<le> E")
    case False
    then have "clock_loop h E c s = Some (c, fold h [] s)"
      by (subst clock_loop.simps) simp
    moreover have "E < nextTickAt c" using False by simp
    ultimately show ?thesis by (intro exI[of _ c] exI[of _ "[]"]) simp
  next
    case True
    let ?c = "clock_tick c"
    have T: "unat (nextTickAt c) \<le> unat E" using True by (simp add: word_le_nat_alt)
    have spt: "samplesPerTick ?c = samplesPerTick c" by (simp add: clock_tick_def)
    have "unat (nextTickAt c) + unat (ucast (samplesPerTick c) :: 64 word) < 2 ^ 64"
      using T less.prems by (simp add: unat_ucast_32_64)
    then have nt: "unat (nextTickAt ?c) = unat (nextTickAt c) + ?p"
      by (simp add: clock_tick_def unat_word_ariths unat_ucast_32_64)
    have dec: "Suc (unat E) - unat (nextTickAt ?c) < Suc (unat E) - unat (nextTickAt c)"
      using nt T less.prems(1) by simp
    obtain c' steps where r: "clock_loop h E ?c (h (step16 c) s) = Some (c', fold h steps (h (step16 c) s))"
        "samplesPerTick c' = samplesPerTick ?c" "E < nextTickAt c'"
        "length steps * unat (samplesPerTick ?c)
             \<le> Suc (unat E) - unat (nextTickAt ?c) + (unat (samplesPerTick ?c) - 1)"
      using less.hyps[OF dec, of "h (step16 c) s"] less.prems spt by auto
    have "clock_loop h E c s = clock_loop h E ?c (h (step16 c) s)"
      by (subst clock_loop.simps) (simp only: True if_True)
    then have "clock_loop h E c s = Some (c', fold h (step16 c # steps) s)"
      using r(1) by simp
    moreover have "length (step16 c # steps) * ?p
             \<le> Suc (unat E) - unat (nextTickAt c) + (?p - 1)"
    proof (cases "unat (nextTickAt c) + ?p \<le> Suc (unat E)")
      case True
      then show ?thesis using r(4) nt spt T less.prems(1) by simp
    next
      case False
      then have "length steps * ?p \<le> ?p - 1" using r(4) nt spt by simp
      then have "length steps = 0" using less.prems(1)
        by (cases "length steps") auto
      then show ?thesis using T less.prems(1) by simp
    qed
    ultimately show ?thesis using r(2,3) spt by (intro exI[of _ c'] exI[of _ "step16 c # steps"]) simp
  qed
qed

lemma clock_tick_advances:
  fixes d :: Clock16
  assumes p: "1 \<le> unat (samplesPerTick d)"
    and nw: "unat E + unat (samplesPerTick d) < 2 ^ 64"
    and le: "nextTickAt d \<le> E"
  shows "nextTickAt d < nextTickAt (clock_tick d)"
proof -
  have T: "unat (nextTickAt d) \<le> unat E" using le by (simp add: word_le_nat_alt)
  then have "unat (nextTickAt d) + unat (ucast (samplesPerTick d) :: 64 word) < 2 ^ 64"
    using nw by (simp add: unat_ucast_32_64)
  then have "unat (nextTickAt (clock_tick d)) = unat (nextTickAt d) + unat (samplesPerTick d)"
    by (simp add: clock_tick_def unat_word_ariths unat_ucast_32_64)
  then show ?thesis using p by (simp add: word_less_nat_alt)
qed

lemma clock_advance_block_total:
  fixes c :: Clock16
  assumes p: "1 \<le> unat (samplesPerTick c)"
    and nw: "unat (smpNow c) + unat n + unat (samplesPerTick c) < 2 ^ 64"
  shows "\<exists>c' steps. clock_advance_block h c n s = Some (c', fold h steps s) \<and>
           length steps \<le> (unat (smpNow c) + unat n) div unat (samplesPerTick c) + 1 \<and>
           smpNow c' = smpNow c + ucast n \<and> smpNow c' < nextTickAt c'"
proof -
  let ?E = "smpNow c + ucast n"
  let ?p = "unat (samplesPerTick c)"
  have uE: "unat ?E = unat (smpNow c) + unat n"
    using nw by (simp add: unat_word_ariths unat_ucast_32_64)
  have p0: "0 < ?p" using p by simp
  have nwE: "unat ?E + ?p < 2 ^ 64" using nw uE by simp
  obtain c' steps where r: "clock_loop h ?E c s = Some (c', fold h steps s)"
      "?E < nextTickAt c'"
      "length steps * ?p \<le> Suc (unat ?E) - unat (nextTickAt c) + (?p - 1)"
    using clock_loop_total[OF p0 nwE, of h s] by blast
  have "length steps * ?p \<le> unat ?E + ?p" using r(3) p0 by simp
  then have "length steps * ?p div ?p \<le> (unat ?E + ?p) div ?p"
    by (rule div_le_mono)
  then have "length steps \<le> (unat ?E + ?p) div ?p"
    using p0 by simp
  then have len: "length steps \<le> (unat (smpNow c) + unat n) div ?p + 1"
    using p0 uE by simp
  have "clock_advance_block h c n s = Some (c'\<lparr>smpNow := ?E\<rparr>, fold h steps s)"
    by (simp add: clock_advance_block_def Let_def r(1))
  then show ?thesis using len r(2)
    by (intro exI[of _ "c'\<lparr>smpNow := ?E\<rparr>"] exI[of _ steps]) simp
qed

lemma spt_clamp: "b < 30 \<Longrightarrow> clock_spt_from_bpm b = clock_spt_from_bpm 30"
  by (simp add: clock_spt_from_bpm_def)

text \<open>
  Claim C10 (termination of the clock loop). \<open>clock_spt_from_bpm\<close> clamps a tempo
  below 30 to 30, and for every tempo from 30 to 240 it returns at least one sample per
  tick. With at least one sample per tick, and as long as the 64-bit sample counter does
  not wrap within the block, every iteration of the loop of \<open>clock_advance_block\<close>
  moves \<open>nextTickAt\<close> strictly forward, and \<open>clock_advance_block\<close> returns for every
  block size after calling the step handler finitely often: at most
  \<open>(smpNow + blockSamples) div samplesPerTick + 1\<close> times. On return the next tick lies
  after the end of the block.
\<close>

theorem clock_loop_terminates:
  fixes c :: Clock16
  shows "(b0 < 30 \<longrightarrow> clock_spt_from_bpm b0 = clock_spt_from_bpm 30) \<and>
         (30 \<le> b \<and> b \<le> 240 \<longrightarrow> 1 \<le> unat (clock_spt_from_bpm b)) \<and>
         (1 \<le> unat (samplesPerTick c) \<and>
          unat (smpNow c) + unat n + unat (samplesPerTick c) < 2 ^ 64 \<longrightarrow>
            (\<forall>d. samplesPerTick d = samplesPerTick c \<and> nextTickAt d \<le> smpNow c + ucast n
                 \<longrightarrow> nextTickAt d < nextTickAt (clock_tick d)) \<and>
            (\<exists>c' steps. clock_advance_block h c n s = Some (c', fold h steps s) \<and>
               length steps \<le> (unat (smpNow c) + unat n) div unat (samplesPerTick c) + 1 \<and>
               smpNow c' = smpNow c + ucast n \<and> smpNow c' < nextTickAt c'))"
proof (intro conjI impI allI)
  assume "b0 < 30"
  then show "clock_spt_from_bpm b0 = clock_spt_from_bpm 30" by (rule spt_clamp)
next
  assume "30 \<le> b \<and> b \<le> 240"
  then show "1 \<le> unat (clock_spt_from_bpm b)" using spt_domain[of b] by simp
next
  fix d :: Clock16
  assume h: "1 \<le> unat (samplesPerTick c) \<and>
          unat (smpNow c) + unat n + unat (samplesPerTick c) < 2 ^ 64"
    and d: "samplesPerTick d = samplesPerTick c \<and> nextTickAt d \<le> smpNow c + ucast n"
  have uE: "unat (smpNow c + ucast n) = unat (smpNow c) + unat n"
    using h by (simp add: unat_word_ariths unat_ucast_32_64)
  show "nextTickAt d < nextTickAt (clock_tick d)"
    using h d uE by (intro clock_tick_advances[of d "smpNow c + ucast n"]) simp_all
next
  assume h: "1 \<le> unat (samplesPerTick c) \<and>
          unat (smpNow c) + unat n + unat (samplesPerTick c) < 2 ^ 64"
  then show "\<exists>c' steps. clock_advance_block h c n s = Some (c', fold h steps s) \<and>
               length steps \<le> (unat (smpNow c) + unat n) div unat (samplesPerTick c) + 1 \<and>
               smpNow c' = smpNow c + ucast n \<and> smpNow c' < nextTickAt c'"
    using clock_advance_block_total[of c n h s] by simp
qed

text \<open>The theorem at the tempi 20 and 104 and at a block of 7000 samples after
  \<open>clock_init\<close>.\<close>

theorem clock_loop_terminates_witness:
  "(20::int) < 30 \<and> clock_spt_from_bpm 20 = clock_spt_from_bpm 30 \<and>
   (30::int) \<le> 104 \<and> (104::int) \<le> 240 \<and> 1 \<le> unat (clock_spt_from_bpm 104) \<and>
   1 \<le> unat (samplesPerTick (clock_init 104)) \<and>
   (\<exists>c' steps. clock_advance_block record_step (clock_init 104) 7000 [] =
        Some (c', fold record_step steps []) \<and>
      length steps \<le> 7000 div 6361 + 1 \<and> smpNow c' = 7000 \<and> smpNow c' < nextTickAt c')"
  using clock_loop_terminates[of 20 104 "clock_init 104" 7000 record_step "[]"]
  by (simp add: clock_init_def spt_104)

section \<open>Properties of the quantizer\<close>

lemma pc_cases: "0 \<le> (k::int) \<Longrightarrow> k < 12 \<Longrightarrow>
   k = 0 \<or> k = 1 \<or> k = 2 \<or> k = 3 \<or> k = 4 \<or> k = 5 \<or> k = 6 \<or> k = 7 \<or> k = 8 \<or> k = 9 \<or> k = 10 \<or> k = 11"
  by presburger

lemma upt7: "[0..<7] = [0, 1, 2, 3, 4, 5, 6]"
  by (simp add: upt_rec)

lemma c_rem_nonneg: "0 \<le> a \<Longrightarrow> c_rem a 12 = a mod 12"
  by (cases "a = 0") (simp_all add: c_rem_def)

lemma pc12_mod: "pc12 m = m mod 12"
proof (cases "0 \<le> m")
  case True
  then show ?thesis by (simp add: pc12_def c_rem_nonneg Let_def)
next
  case False
  then have "c_rem m 12 = - ((- m) mod 12)" by (simp add: c_rem_def)
  moreover have "m mod 12 = (if (- m) mod 12 = 0 then 0 else 12 - (- m) mod 12)"
    using zmod_zminus1_eq_if[of "- m" 12] by simp
  moreover have "0 \<le> (- m) mod 12" by simp
  ultimately have "(if c_rem m 12 < 0 then c_rem m 12 + 12 else c_rem m 12) = m mod 12"
    by auto
  then show ?thesis by (simp only: pc12_def Let_def)
qed
lemma wrap_dist_range: "0 \<le> t \<Longrightarrow> t < 12 \<Longrightarrow> 0 \<le> k \<Longrightarrow> k < 12 \<Longrightarrow>
   - 6 \<le> wrap_dist t k \<and> wrap_dist t k \<le> 6 \<and> (k + wrap_dist t k) mod 12 = t"
  unfolding wrap_dist_def Let_def by (auto simp: mod_pos_pos_trivial)

lemma beats_refl: "beats r r"
  by (simp add: beats_def)

lemma beats_trans: "beats a b \<Longrightarrow> beats b c \<Longrightarrow> beats a c"
  unfolding beats_def by linarith

lemma quant_step_cases: "quant_step sd k i best = best \<or> quant_step sd k i best = cand sd k i"
  by (simp add: quant_step_def cand_def Let_def abs_if)

lemma quant_step_beats_best: "beats (quant_step sd k i best) best"
  by (simp add: quant_step_def beats_def Let_def)

lemma quant_step_beats_cand: "beats (quant_step sd k i best) (cand sd k i)"
  unfolding quant_step_def beats_def cand_def Let_def
  by (simp add: abs_if) linarith

lemma quant_fold_cases:
  "fold (quant_step sd k) js best = best \<or> fold (quant_step sd k) js best \<in> cand sd k ` set js"
proof (induction js arbitrary: best)
  case Nil
  then show ?case by simp
next
  case (Cons i js)
  show ?case
    using Cons.IH[of "quant_step sd k i best"] quant_step_cases[of sd k i best] by auto
qed

lemma quant_fold_beats_best: "beats (fold (quant_step sd k) js best) best"
proof (induction js arbitrary: best)
  case Nil
  then show ?case by (simp add: beats_refl)
next
  case (Cons i js)
  show ?case
    using beats_trans[OF Cons.IH[of "quant_step sd k i best"] quant_step_beats_best] by simp
qed

lemma quant_fold_beats_cand: "j \<in> set js \<Longrightarrow> beats (fold (quant_step sd k) js best) (cand sd k j)"
proof (induction js arbitrary: best)
  case Nil
  then show ?case by simp
next
  case (Cons i js)
  show ?case
  proof (cases "j = i")
    case True
    show ?thesis
      using beats_trans[OF quant_fold_beats_best[of sd k js "quant_step sd k i best"]
                           quant_step_beats_cand[of sd k i best]] True by simp
  next
    case False
    then have "j \<in> set js" using Cons.prems by simp
    then show ?thesis using Cons.IH[of "quant_step sd k i best"] by simp
  qed
qed

lemma best_table:
  assumes "0 \<le> k" "k < 12"
  shows "\<bar>fst (fold (quant_step (scaleDef s) k) [0..<7] (127, 128))\<bar> \<le> 1 \<and>
         (k = 0 \<or> k = 7 \<longrightarrow> fst (fold (quant_step (scaleDef s) k) [0..<7] (127, 128)) = 0)"
  using pc_cases[OF assms]
  by (cases s; elim disjE;
      simp add: upt7 quant_step_def scaleDef_def c_rem_def wrap_dist_def targetPC_def Let_def)

lemma count_scaleDef: "count (scaleDef s) = 7"
  by (cases s) (simp_all add: scaleDef_def)

lemma targetPC_range: "i < 7 \<Longrightarrow> 0 \<le> targetPC (scaleDef s) i \<and> targetPC (scaleDef s) i < 12"
proof -
  assume "i < 7"
  then have "i = 0 \<or> i = 1 \<or> i = 2 \<or> i = 3 \<or> i = 4 \<or> i = 5 \<or> i = 6" by presburger
  then have "0 \<le> rootPC (scaleDef s) + degrees (scaleDef s) ! i"
    by (cases s; elim disjE; simp add: scaleDef_def)
  then show ?thesis by (simp add: targetPC_def c_rem_nonneg)
qed

lemma quant_best_is_cand:
  "\<exists>j<7. quant_best midi s = cand (scaleDef s) (pc12 midi) j"
proof -
  let ?sd = "scaleDef s" and ?k = "pc12 midi"
  let ?r = "fold (quant_step ?sd ?k) [0..<7] (127, 128)"
  have k: "0 \<le> ?k" "?k < 12" by (simp_all add: pc12_mod)
  have "beats ?r (cand ?sd ?k 0)" by (rule quant_fold_beats_cand) simp
  moreover have "snd (cand ?sd ?k 0) \<le> 6"
    using wrap_dist_range[OF _ _ k, of "targetPC ?sd 0"] targetPC_range[of 0 s]
    by (simp add: cand_def abs_le_iff)
  ultimately have "snd ?r \<le> 6" by (auto simp: beats_def)
  then have "?r \<noteq> (127, 128)" by auto
  then have "?r \<in> cand ?sd ?k ` set [0..<7]"
    using quant_fold_cases[of ?sd ?k "[0..<7]" "(127, 128)"] by blast
  then show ?thesis by (auto simp: quant_best_def Let_def count_scaleDef)
qed

text \<open>
  Claim C2 (quantizer correctness). For every MIDI note from 0 to 127 and every builtin
  scale, \<open>quantizeMidi\<close> returns a note between 0 and 127 whose pitch class is in the
  degree set of the scale and which lies at most 6 semitones from the input. The shift
  it adds is one of the wrapped signed pitch-class distances to the degrees of the
  scale; no other such distance is smaller in absolute value, and among the distances of
  the same absolute value none is larger (a tie goes upward). The result is the shifted
  note clamped to \<open>[0, 127]\<close>.
\<close>

theorem quantizeMidi_correct:
  assumes lo: "0 \<le> midi" and hi: "midi \<le> 127"
  shows "pc12 (quantizeMidi midi s) \<in> set (scale_pcs s) \<and>
         \<bar>quantizeMidi midi s - midi\<bar> \<le> 6 \<and>
         0 \<le> quantizeMidi midi s \<and> quantizeMidi midi s \<le> 127 \<and>
         quantizeMidi midi s = max 0 (min 127 (midi + fst (quant_best midi s))) \<and>
         fst (quant_best midi s) \<in> set (scale_dists midi s) \<and>
         (\<forall>d \<in> set (scale_dists midi s).
            \<bar>fst (quant_best midi s)\<bar> < \<bar>d\<bar> \<or>
            (\<bar>fst (quant_best midi s)\<bar> = \<bar>d\<bar> \<and> d \<le> fst (quant_best midi s)))"
proof -
  let ?sd = "scaleDef s" and ?k = "pc12 midi"
  let ?b = "fst (quant_best midi s)"
  have k: "0 \<le> ?k" "?k < 12" by (simp_all add: pc12_mod)
  obtain j where j: "j < 7" "quant_best midi s = cand ?sd ?k j"
    using quant_best_is_cand by blast
  have b: "?b = wrap_dist (targetPC ?sd j) ?k" using j by (simp add: cand_def)
  have sb: "snd (quant_best midi s) = \<bar>?b\<bar>" using j by (simp add: cand_def)
  have fold: "quant_best midi s = fold (quant_step ?sd ?k) [0..<7] (127, 128)"
    by (simp add: quant_best_def Let_def count_scaleDef)
  have tab: "\<bar>?b\<bar> \<le> 1" "?k = 0 \<or> ?k = 7 \<longrightarrow> ?b = 0"
    using best_table[OF k, of s] by (simp_all add: fold)
  have k0: "midi = 0 \<Longrightarrow> ?k = 0" by (simp add: pc12_mod)
  have k7: "midi = 127 \<Longrightarrow> ?k = 7" by (simp add: pc12_mod)
  have range: "0 \<le> midi + ?b" "midi + ?b \<le> 127"
    using tab k0 k7 lo hi by (cases "midi = 0"; cases "midi = 127"; simp; linarith)+
  then have q: "quantizeMidi midi s = midi + ?b"
    by (simp add: quantizeMidi_def Let_def)
  have t: "0 \<le> targetPC ?sd j" "targetPC ?sd j < 12" using targetPC_range[OF j(1), of s] by simp_all
  have "(?k + ?b) mod 12 = targetPC ?sd j"
    using wrap_dist_range[OF t k] b by simp
  moreover have "(midi + ?b) mod 12 = (?k + ?b) mod 12"
    by (simp add: pc12_mod mod_add_left_eq)
  ultimately have "pc12 (quantizeMidi midi s) = targetPC ?sd j"
    by (simp add: q pc12_mod)
  then have 1: "pc12 (quantizeMidi midi s) \<in> set (scale_pcs s)"
    using j(1) by (simp add: scale_pcs_def count_scaleDef)
  have 2: "\<bar>quantizeMidi midi s - midi\<bar> \<le> 6" using tab(1) by (simp add: q)
  have 3: "0 \<le> quantizeMidi midi s" "quantizeMidi midi s \<le> 127" using range by (simp_all add: q)
  have 4: "quantizeMidi midi s = max 0 (min 127 (midi + ?b))" using range by (simp add: q)
  have 5: "?b \<in> set (scale_dists midi s)"
    using j(1) b by (simp add: scale_dists_def scale_pcs_def count_scaleDef)
  have 6: "\<bar>?b\<bar> < \<bar>d\<bar> \<or> (\<bar>?b\<bar> = \<bar>d\<bar> \<and> d \<le> ?b)" if "d \<in> set (scale_dists midi s)" for d
  proof -
    have "d \<in> (\<lambda>i. wrap_dist (targetPC ?sd i) ?k) ` {0..<7}"
      using that by (simp add: scale_dists_def scale_pcs_def count_scaleDef image_image)
    then obtain i where i: "i < 7" "d = wrap_dist (targetPC ?sd i) ?k"
      by auto
    have "beats (quant_best midi s) (cand ?sd ?k i)"
      unfolding fold by (rule quant_fold_beats_cand) (use i in simp)
    then show ?thesis using i(2) sb by (simp add: beats_def cand_def)
  qed
  show ?thesis using 1 2 3 4 5 6 by blast
qed

lemma quantizeMidi_61: "quantizeMidi 61 SCALE_A_MINOR = 62"
  by (simp add: quantizeMidi_def quant_best_def quant_step_def scaleDef_def pc12_def c_rem_def
     wrap_dist_def targetPC_def Let_def upt7)

lemma quant_best_61: "quant_best 61 SCALE_A_MINOR = (1, 1)"
  by (simp add: quant_best_def quant_step_def scaleDef_def pc12_def c_rem_def
     wrap_dist_def targetPC_def Let_def upt7)

lemma scale_dists_61: "scale_dists 61 SCALE_A_MINOR = [- 4, - 2, - 1, 1, 3, 4, 6]"
  by (simp add: scale_dists_def scale_pcs_def targetPC_def scaleDef_def pc12_def c_rem_def
      wrap_dist_def Let_def upt7)

text \<open>The theorem at the note 61 in A minor: the degrees one semitone below and one
  above tie, and the note goes up to 62.\<close>

theorem quantizeMidi_correct_witness:
  "(0::int) \<le> 61 \<and> (61::int) \<le> 127 \<and> quantizeMidi 61 SCALE_A_MINOR = 62 \<and>
   pc12 62 \<in> set (scale_pcs SCALE_A_MINOR) \<and> \<bar>62 - 61\<bar> \<le> (6::int) \<and>
   scale_dists 61 SCALE_A_MINOR = [- 4, - 2, - 1, 1, 3, 4, 6] \<and>
   fst (quant_best 61 SCALE_A_MINOR) = 1"
  using quantizeMidi_correct[of 61 SCALE_A_MINOR]
  by (simp add: quantizeMidi_61 quant_best_61 scale_dists_61)

section \<open>Properties of the envelope\<close>













section \<open>Properties of the pluck voice pool\<close>

lemma upt4: "[0..<4] = [0, 1, 2, 3]"
  by (simp add: upt_rec)

lemma less_4_cases: "i < 4 \<longleftrightarrow> i = 0 \<or> i = 1 \<or> i = 2 \<or> i = (3::nat)"
  by presburger

lemma all_less_4: "(\<forall>i<4. P i) = (P 0 \<and> P 1 \<and> P 2 \<and> P (3::nat))"
  by (auto simp: less_4_cases)

lemma all_less_3: "(\<forall>i<3. P i) = (P 0 \<and> P 1 \<and> P (2::nat))"
proof -
  have "i < 3 \<longleftrightarrow> i = 0 \<or> i = 1 \<or> i = 2" for i :: nat by presburger
  then show ?thesis by auto
qed

lemma all_less_2: "(\<forall>i<2. P i) = (P 0 \<and> P (1::nat))"
proof -
  have "i < 2 \<longleftrightarrow> i = 0 \<or> i = 1" for i :: nat by presburger
  then show ?thesis by auto
qed

lemma first_free_some:
  assumes "\<not> (\<forall>i<4. pv_active (vs ! i))"
  shows "\<exists>idx<4. first_free vs [0..<4] = int idx \<and> \<not> pv_active (vs ! idx) \<and>
           (\<forall>j<idx. pv_active (vs ! j))"
proof -
  consider "\<not> pv_active (vs ! 0)"
    | "pv_active (vs ! 0)" "\<not> pv_active (vs ! 1)"
    | "pv_active (vs ! 0)" "pv_active (vs ! 1)" "\<not> pv_active (vs ! 2)"
    | "pv_active (vs ! 0)" "pv_active (vs ! 1)" "pv_active (vs ! 2)" "\<not> pv_active (vs ! 3)"
    using assms unfolding all_less_4 by blast
  then show ?thesis
  proof cases
    case 1
    then show ?thesis by (intro exI[of _ 0]) (simp add: upt4)
  next
    case 2
    then show ?thesis by (intro exI[of _ 1]) (simp add: upt4)
  next
    case 3
    then show ?thesis by (intro exI[of _ 2]) (simp add: upt4 all_less_2)
  next
    case 4
    then show ?thesis by (intro exI[of _ 3]) (simp add: upt4 all_less_3)
  qed
qed

lemma first_free_none:
  assumes "\<forall>i<4. pv_active (vs ! i)"
  shows "first_free vs [0..<4] = - 1"
  using assms unfolding all_less_4 by (simp add: upt4)

lemma quietest_spec:
  assumes "\<forall>i<4. adsr_env (pv_eg (vs ! i)) \<le> 1"
  shows "\<exists>idx<4. fst (fold (quiet_step vs) [0..<4] (- 1, 1000000000)) = int idx \<and>
           (\<forall>j<4. adsr_env (pv_eg (vs ! idx)) \<le> adsr_env (pv_eg (vs ! j))) \<and>
           (\<forall>j<idx. adsr_env (pv_eg (vs ! idx)) < adsr_env (pv_eg (vs ! j)))"
proof -
  define e where "e i = adsr_env (pv_eg (vs ! i))" for i
  have b: "e 0 \<le> 1" "e 1 \<le> 1" "e 2 \<le> 1" "e 3 \<le> 1"
    using assms unfolding all_less_4 by (simp_all add: e_def)
  have f: "fold (quiet_step vs) [0..<4] (- 1, 1000000000) =
        (let b0 = (if e 0 < 1000000000 then (0, e 0) else (- 1, 1000000000));
             b1 = (if e 1 < snd b0 then (1, e 1) else b0);
             b2 = (if e 2 < snd b1 then (2, e 2) else b1)
         in if e 3 < snd b2 then (3, e 3) else b2)"
    by (simp add: upt4 quiet_step_def e_def Let_def)
  consider "e 0 \<le> e 1" "e 0 \<le> e 2" "e 0 \<le> e 3"
    | "e 1 < e 0" "e 1 \<le> e 2" "e 1 \<le> e 3"
    | "e 2 < e 0" "e 2 < e 1" "e 2 \<le> e 3"
    | "e 3 < e 0" "e 3 < e 1" "e 3 < e 2"
    by linarith
  then show ?thesis
  proof cases
    case 1
    then have "fst (fold (quiet_step vs) [0..<4] (- 1, 1000000000)) = int 0"
      using b by (simp add: f Let_def)
    then show ?thesis using 1 unfolding e_def[symmetric]
      by (intro exI[of _ 0]) (simp add: all_less_4)
  next
    case 2
    then have "fst (fold (quiet_step vs) [0..<4] (- 1, 1000000000)) = int 1"
      using b by (simp add: f Let_def)
    then show ?thesis using 2 unfolding e_def[symmetric]
      by (intro exI[of _ 1]) (simp add: all_less_4)
  next
    case 3
    then have "fst (fold (quiet_step vs) [0..<4] (- 1, 1000000000)) = int 2"
      using b by (simp add: f Let_def)
    then show ?thesis using 3 unfolding e_def[symmetric]
      by (intro exI[of _ 2]) (simp add: all_less_4 all_less_2)
  next
    case 4
    then have "fst (fold (quiet_step vs) [0..<4] (- 1, 1000000000)) = int 3"
      using b by (simp add: f Let_def)
    then show ?thesis using 4 unfolding e_def[symmetric]
      by (intro exI[of _ 3]) (simp add: all_less_4 all_less_3)
  qed
qed

lemma pluck_ready_ok:
  assumes "length (pool_v p) = 4" "\<forall>i<4. adsr_env (pv_eg (pool_v p ! i)) \<le> 1"
  shows "length (pool_v (pluck_ready p)) = 4 \<and>
         (\<forall>i<4. adsr_env (pv_eg (pool_v (pluck_ready p) ! i)) \<le> 1)"
  using assms
  by (simp add: pluck_ready_def pluck_init_def PluckVoice_default_def ADSR_default_def)

lemma pluck_alloc_spec:
  assumes "\<forall>i<4. adsr_env (pv_eg (vs ! i)) \<le> 1"
  shows "\<exists>idx<4. pluck_alloc vs = int idx \<and>
           (if \<exists>i<4. \<not> pv_active (vs ! i)
            then \<not> pv_active (vs ! idx) \<and> (\<forall>j<idx. pv_active (vs ! j))
            else (\<forall>j<4. adsr_env (pv_eg (vs ! idx)) \<le> adsr_env (pv_eg (vs ! j))) \<and>
                 (\<forall>j<idx. adsr_env (pv_eg (vs ! idx)) < adsr_env (pv_eg (vs ! j))))"
proof (cases "\<forall>i<4. pv_active (vs ! i)")
  case True
  then have n: "\<not> (\<exists>i<4. \<not> pv_active (vs ! i))" by blast
  have "pluck_alloc vs = fst (fold (quiet_step vs) [0..<4] (- 1, 1000000000))"
    by (simp add: pluck_alloc_def first_free_none[OF True])
  then show ?thesis using quietest_spec[OF assms] n by (simp only: if_False)
next
  case False
  then have y: "\<exists>i<4. \<not> pv_active (vs ! i)" by blast
  obtain idx where i: "idx < 4" "first_free vs [0..<4] = int idx" "\<not> pv_active (vs ! idx)"
      "\<forall>j<idx. pv_active (vs ! j)"
    using first_free_some[OF False] by blast
  have "pluck_alloc vs = int idx" by (simp add: pluck_alloc_def i(2))
  then show ?thesis using i y by (intro exI[of _ idx]) (simp only: if_True, simp)
qed

text \<open>
  Claim C3 (voice allocation never fails). On a pool of four voices whose envelope
  values are at most 1 (the bound of claim C4), \<open>pluck_noteOn\<close> returns for every note
  and velocity, and it writes exactly one voice of the pool (after \<open>pluck_init\<close> when
  the pool was not initialised): the first voice that is not active if there is one,
  and otherwise the voice with the lowest envelope value, the first of them if several
  are lowest. That voice becomes active with phase 0, envelope value 0, state Attack and
  the note quantized to the current scale; the other three voices are unchanged.
\<close>

theorem pluck_noteOn_allocates:
  assumes len: "length (pool_v p) = 4"
    and envs: "\<forall>i<4. adsr_env (pv_eg (pool_v p ! i)) \<le> 1"
  shows "\<exists>idx p1. idx < 4 \<and> pluck_noteOn p m vel sc = Some p1 \<and>
           p1 = (pluck_ready p)\<lparr>pool_v := (pool_v (pluck_ready p))
                   [idx := voice_start (pool_v (pluck_ready p) ! idx) (quantizeMidi m sc) vel]\<rparr> \<and>
           (if \<exists>i<4. \<not> pv_active (pool_v (pluck_ready p) ! i)
            then \<not> pv_active (pool_v (pluck_ready p) ! idx) \<and>
                 (\<forall>j<idx. pv_active (pool_v (pluck_ready p) ! j))
            else (\<forall>j<4. adsr_env (pv_eg (pool_v (pluck_ready p) ! idx))
                          \<le> adsr_env (pv_eg (pool_v (pluck_ready p) ! j))) \<and>
                 (\<forall>j<idx. adsr_env (pv_eg (pool_v (pluck_ready p) ! idx))
                          < adsr_env (pv_eg (pool_v (pluck_ready p) ! j)))) \<and>
           pv_active (pool_v p1 ! idx) \<and> pv_phase (pool_v p1 ! idx) = 0 \<and>
           adsr_env (pv_eg (pool_v p1 ! idx)) = 0 \<and>
           adsr_st (pv_eg (pool_v p1 ! idx)) = ENV_ATTACK \<and>
           pv_midi (pool_v p1 ! idx) = quantizeMidi m sc \<and>
           (\<forall>j<4. j \<noteq> idx \<longrightarrow> pool_v p1 ! j = pool_v (pluck_ready p) ! j)"
proof -
  let ?p0 = "pluck_ready p"
  have ok: "length (pool_v ?p0) = 4" "\<forall>i<4. adsr_env (pv_eg (pool_v ?p0 ! i)) \<le> 1"
    using pluck_ready_ok[OF len envs] by simp_all
  obtain idx where i: "idx < 4" "pluck_alloc (pool_v ?p0) = int idx"
     and choice: "if \<exists>i<4. \<not> pv_active (pool_v ?p0 ! i)
            then \<not> pv_active (pool_v ?p0 ! idx) \<and> (\<forall>j<idx. pv_active (pool_v ?p0 ! j))
            else (\<forall>j<4. adsr_env (pv_eg (pool_v ?p0 ! idx)) \<le> adsr_env (pv_eg (pool_v ?p0 ! j))) \<and>
                 (\<forall>j<idx. adsr_env (pv_eg (pool_v ?p0 ! idx)) < adsr_env (pv_eg (pool_v ?p0 ! j)))"
    using pluck_alloc_spec[OF ok(2)] by blast
  let ?p1 = "?p0\<lparr>pool_v := (pool_v ?p0)
                   [idx := voice_start (pool_v ?p0 ! idx) (quantizeMidi m sc) vel]\<rparr>"
  have r: "pluck_noteOn p m vel sc = Some ?p1"
    using i by (simp add: pluck_noteOn_def Let_def)
  have v: "pool_v ?p1 ! idx = voice_start (pool_v ?p0 ! idx) (quantizeMidi m sc) vel"
    using i(1) ok(1) by simp
  have props: "pv_active (pool_v ?p1 ! idx)" "pv_phase (pool_v ?p1 ! idx) = 0"
     "adsr_env (pv_eg (pool_v ?p1 ! idx)) = 0" "adsr_st (pv_eg (pool_v ?p1 ! idx)) = ENV_ATTACK"
     "pv_midi (pool_v ?p1 ! idx) = quantizeMidi m sc"
    unfolding v by (simp_all add: voice_start_def)
  have others: "\<forall>j<4. j \<noteq> idx \<longrightarrow> pool_v ?p1 ! j = pool_v ?p0 ! j" by simp
  show ?thesis
    using i(1) r choice props others by (intro exI[of _ idx] exI[of _ ?p1]) (simp only: simp_thms)
qed

lemma sounding_pool_env:
  "i < length es \<Longrightarrow> adsr_env (pv_eg (pool_v (sounding_pool es) ! i)) = es ! i \<and>
     pv_active (pool_v (sounding_pool es) ! i)"
  by (simp add: sounding_pool_def)

text \<open>The theorem on a pool whose four voices sound at the values 1/2, 1/5, 1/5 and
  9/10: the note 61 steals voice 1, not voice 0, and sounds as 62 in A minor.\<close>

theorem pluck_noteOn_allocates_witness:
  "length (pool_v (sounding_pool [1 / 2, 1 / 5, 1 / 5, 9 / 10])) = 4 \<and>
   adsr_env (pv_eg (pool_v (sounding_pool [1 / 2, 1 / 5, 1 / 5, 9 / 10]) ! 0)) \<le> 1 \<and>
   adsr_env (pv_eg (pool_v (sounding_pool [1 / 2, 1 / 5, 1 / 5, 9 / 10]) ! 1)) \<le> 1 \<and>
   adsr_env (pv_eg (pool_v (sounding_pool [1 / 2, 1 / 5, 1 / 5, 9 / 10]) ! 2)) \<le> 1 \<and>
   adsr_env (pv_eg (pool_v (sounding_pool [1 / 2, 1 / 5, 1 / 5, 9 / 10]) ! 3)) \<le> 1 \<and>
   (\<exists>p1. pluck_noteOn (sounding_pool [1 / 2, 1 / 5, 1 / 5, 9 / 10]) 61 (4 / 5) SCALE_A_MINOR = Some p1 \<and>
      pv_midi (pool_v p1 ! 1) = 62 \<and> adsr_st (pv_eg (pool_v p1 ! 1)) = ENV_ATTACK \<and>
      adsr_env (pv_eg (pool_v p1 ! 1)) = 0 \<and>
      pool_v p1 ! 0 = pool_v (sounding_pool [1 / 2, 1 / 5, 1 / 5, 9 / 10]) ! 0)"
proof -
  let ?P = "sounding_pool [1 / 2, 1 / 5, 1 / 5, 9 / 10]"
  have h1: "length (pool_v ?P) = 4" by (simp add: sounding_pool_def)
  have h2: "\<forall>i<4. adsr_env (pv_eg (pool_v ?P ! i)) \<le> 1"
    by (simp add: all_less_4 sounding_pool_env)
  have ready: "pluck_ready ?P = ?P" by (simp add: pluck_ready_def sounding_pool_def)
  have act: "\<not> (\<exists>i<4. \<not> pv_active (pool_v ?P ! i))"
    by (simp add: all_less_4 sounding_pool_env)
  obtain idx p1 where r: "idx < 4" "pluck_noteOn ?P 61 (4 / 5) SCALE_A_MINOR = Some p1"
      "(\<forall>j<4. adsr_env (pv_eg (pool_v ?P ! idx)) \<le> adsr_env (pv_eg (pool_v ?P ! j))) \<and>
       (\<forall>j<idx. adsr_env (pv_eg (pool_v ?P ! idx)) < adsr_env (pv_eg (pool_v ?P ! j)))"
      "adsr_env (pv_eg (pool_v p1 ! idx)) = 0" "adsr_st (pv_eg (pool_v p1 ! idx)) = ENV_ATTACK"
      "pv_midi (pool_v p1 ! idx) = 62"
      "\<forall>j<4. j \<noteq> idx \<longrightarrow> pool_v p1 ! j = pool_v ?P ! j"
    using pluck_noteOn_allocates[OF h1 h2, of 61 "4 / 5" SCALE_A_MINOR] act
    unfolding ready quantizeMidi_61 by (simp only: if_False) blast
  have "idx = 0 \<or> idx = 1 \<or> idx = 2 \<or> idx = 3" using r(1) by (simp add: less_4_cases)
  then have "idx = 1"
    using r(3) by (elim disjE) (simp_all add: all_less_4 all_less_2 all_less_3 sounding_pool_env)
  then show ?thesis using h1 h2[unfolded all_less_4] r by auto
qed

section \<open>Properties of the delay and the reverb\<close>

lemma clamp1_range: "- 1 \<le> clamp1 x \<and> clamp1 x \<le> 1"
  by (simp add: clamp1_def Let_def)

lemma truncf_range:
  assumes "- 1 \<le> x" "x \<le> 1"
  shows "- 32767 \<le> truncf (x * 32767) \<and> truncf (x * 32767) \<le> 32767"
proof (cases "0 \<le> x")
  case True
  then have "truncf (x * 32767) = \<lfloor>x * 32767\<rfloor>" by (simp add: truncf_def)
  moreover have "0 \<le> \<lfloor>x * 32767\<rfloor>" using True by simp
  moreover have "\<lfloor>x * 32767\<rfloor> \<le> 32767" using assms by (simp add: floor_le_iff)
  ultimately show ?thesis by simp
next
  case False
  then have "truncf (x * 32767) = \<lceil>x * 32767\<rceil>" by (simp add: truncf_def mult_nonneg_nonpos2 )
  moreover have "\<lceil>x * 32767\<rceil> \<le> 0" using False by (simp add: ceiling_le_iff)
  moreover have "- 32767 \<le> \<lceil>x * 32767\<rceil>" using assms by (simp add: le_ceiling_iff)
  ultimately show ?thesis by simp
qed

lemma sint_word_of_int_16:
  "- 32768 \<le> i \<Longrightarrow> i < 32768 \<Longrightarrow> sint (word_of_int i :: 16 word) = i"
  by (simp add: sint_sbintrunc' signed_take_bit_int_eq_self)

lemma q15_roundtrip_range:
  assumes "- 1 \<le> x" "x \<le> 1"
  shows "- 1 \<le> of_q15 (to_q15 x) \<and> of_q15 (to_q15 x) \<le> 1"
proof -
  have t: "- 32767 \<le> truncf (x * 32767)" "truncf (x * 32767) \<le> 32767"
    using truncf_range[OF assms] by simp_all
  then have "sint (to_q15 x) = truncf (x * 32767)"
    by (simp add: to_q15_def sint_word_of_int_16)
  then show ?thesis using t by (simp add: of_q15_def)
qed

lemma set_space_fb:
  "dl_fb (fst (delay_set_space dl rv spacePct)) \<le> 0.6 \<and>
   dl_fb (fst (delay_set_space dl rv spacePct)) < 1 \<and>
   list_all (\<lambda>c. cb_fb c \<le> 0.75 \<and> cb_fb c < 1) (rv_c (snd (delay_set_space dl rv spacePct)))"
proof -
  define k where "k = sqrt (space_t spacePct)"
  have "0 \<le> space_t spacePct" "space_t spacePct \<le> 1" by (simp_all add: space_t_def)
  then have k: "0 \<le> k" "k \<le> 1" by (simp_all add: k_def)
  have 1: "dl_fb (fst (delay_set_space dl rv spacePct)) = (if 0.55 * k > 0.6 then 0.6 else 0.55 * k)"
    by (simp add: delay_set_space_def Let_def k_def)
  have 2: "list_all (\<lambda>c. cb_fb c = (if 0.45 + 0.27 * k > 0.75 then 0.75 else 0.45 + 0.27 * k))
            (rv_c (snd (delay_set_space dl rv spacePct)))"
    by (simp add: delay_set_space_def reverb_set_space_def Let_def k_def list_all_iff)
  have 3: "(if 0.45 + 0.27 * k > 0.75 then 0.75 else 0.45 + 0.27 * k) \<le> 0.75" by simp
  have "list_all (\<lambda>c. cb_fb c \<le> 0.75 \<and> cb_fb c < 1) (rv_c (snd (delay_set_space dl rv spacePct)))"
    using 2 3 by (auto simp: list_all_iff)
  then show ?thesis using 1 k by simp
qed

lemma delay_step_ok:
  assumes "delay_ok dl"
  shows "\<exists>y dl1. delay_step dl x = Some (y, dl1) \<and> delay_ok dl1 \<and>
           (dl_inited dl \<longrightarrow>
              (\<exists>t. - 1 \<le> t \<and> t \<le> 1 \<and>
                   dl_buf dl1 = (dl_buf dl)[unat (dl_w dl) := to_q15 t]))"
proof (cases "dl_inited dl")
  case False
  then show ?thesis using assms by (simp add: delay_step_def)
next
  case True
  have u: "dl_size dl \<noteq> 0" "unat (dl_size dl) \<le> length (dl_buf dl)" "dl_w dl < dl_size dl"
    and cells: "list_all (\<lambda>v. - 1 \<le> of_q15 v \<and> of_q15 v \<le> 1) (dl_buf dl)"
    using assms by (simp_all add: delay_ok_def delay_usable_def)
  let ?r = "(dl_w dl + dl_size dl - dl_dSamp dl) mod dl_size dl"
  have "?r < dl_size dl" using u(1) by (simp add: word_mod_less_divisor word_greater_zero_iff)
  then have r: "unat ?r < length (dl_buf dl)" using u(2) by (simp add: word_less_nat_alt)
  have w: "unat (dl_w dl) < length (dl_buf dl)" using u(2,3) by (simp add: word_less_nat_alt)
  define delayed where "delayed = of_q15 (dl_buf dl ! unat ?r)"
  define t where "t = clamp1 (x * dl_send dl + fst (lp_process (dl_tone dl) delayed) * dl_fb dl)"
  let ?w1 = "dl_w dl + 1"
  let ?dl1 = "dl\<lparr>dl_tone := snd (lp_process (dl_tone dl) delayed),
                   dl_buf := (dl_buf dl)[unat (dl_w dl) := to_q15 t],
                   dl_w := (if ?w1 \<ge> dl_size dl then 0 else ?w1)\<rparr>"
  have step: "delay_step dl x = Some (delayed, ?dl1)"
    using True u(1) r w
    by (simp add: delay_step_def Let_def delayed_def t_def split_beta)
  have tr: "- 1 \<le> t" "t \<le> 1" using clamp1_range by (simp_all add: t_def)
  have "list_all (\<lambda>v. - 1 \<le> of_q15 v \<and> of_q15 v \<le> 1) ((dl_buf dl)[unat (dl_w dl) := to_q15 t])"
    using cells q15_roundtrip_range[OF tr] set_update_subset_insert[of "dl_buf dl" "unat (dl_w dl)" "to_q15 t"]
    by (auto simp: list_all_iff)
  moreover have "(if ?w1 \<ge> dl_size dl then 0 else ?w1) < dl_size dl"
    using u(1) by (auto simp: word_greater_zero_iff not_le)
  ultimately have "delay_ok ?dl1" using u by (simp add: delay_ok_def delay_usable_def)
  then show ?thesis using step tr by (intro exI[of _ delayed] exI[of _ ?dl1]) auto
qed

lemma delay_run_ok:
  "delay_ok dl \<Longrightarrow> \<exists>dl1. delay_run dl xs = Some dl1 \<and> delay_ok dl1"
proof (induction xs arbitrary: dl)
  case Nil
  then show ?case by simp
next
  case (Cons x xs)
  obtain y dl1 where s: "delay_step dl x = Some (y, dl1)" "delay_ok dl1"
    using delay_step_ok[OF Cons.prems, of x] by blast
  then show ?case using Cons.IH[OF s(2)] by simp
qed

text \<open>
  Claim C5 (feedback safety). For every space percentage, also outside 0 to 100, the
  feedback coefficients that \<open>delay_set_space\<close> and, through it, \<open>reverb_set_space\<close>
  set are strictly below 1: the delay feedback is at most 0.6 and the feedback of every
  comb at most 0.75. On a usable delay line whose cells read back within \<open>[-1, 1]\<close>,
  \<open>delay_step\<close> returns for every input sample, and when the line is initialised
  the one cell it writes is the 16-bit quantisation of a value clamped to \<open>[-1, 1]\<close>.
  So after every sequence of input samples, bounded or not, every cell of the ring
  buffer still reads back within \<open>[-1, 1]\<close>.
\<close>

theorem feedback_safety:
  "dl_fb (fst (delay_set_space dl rv spacePct)) \<le> 0.6 \<and>
   dl_fb (fst (delay_set_space dl rv spacePct)) < 1 \<and>
   list_all (\<lambda>c. cb_fb c \<le> 0.75 \<and> cb_fb c < 1) (rv_c (snd (delay_set_space dl rv spacePct))) \<and>
   (delay_ok d \<longrightarrow>
      (\<exists>y d1. delay_step d x = Some (y, d1) \<and>
         (dl_inited d \<longrightarrow>
            (\<exists>t. - 1 \<le> t \<and> t \<le> 1 \<and> dl_buf d1 = (dl_buf d)[unat (dl_w d) := to_q15 t]))) \<and>
      (\<exists>d2. delay_run d xs = Some d2 \<and> delay_ok d2 \<and>
         list_all (\<lambda>v. - 1 \<le> of_q15 v \<and> of_q15 v \<le> 1) (dl_buf d2)))"
proof (intro conjI impI)
  show "dl_fb (fst (delay_set_space dl rv spacePct)) \<le> 0.6"
    "dl_fb (fst (delay_set_space dl rv spacePct)) < 1"
    "list_all (\<lambda>c. cb_fb c \<le> 0.75 \<and> cb_fb c < 1) (rv_c (snd (delay_set_space dl rv spacePct)))"
    using set_space_fb[of dl rv spacePct] by simp_all
next
  assume ok: "delay_ok d"
  show "\<exists>y d1. delay_step d x = Some (y, d1) \<and>
         (dl_inited d \<longrightarrow>
            (\<exists>t. - 1 \<le> t \<and> t \<le> 1 \<and> dl_buf d1 = (dl_buf d)[unat (dl_w d) := to_q15 t]))"
    using delay_step_ok[OF ok, of x] by blast
  show "\<exists>d2. delay_run d xs = Some d2 \<and> delay_ok d2 \<and>
         list_all (\<lambda>v. - 1 \<le> of_q15 v \<and> of_q15 v \<le> 1) (dl_buf d2)"
    using delay_run_ok[OF ok, of xs] by (auto simp: delay_ok_def)
qed

lemma list_all_replicate: "P x \<Longrightarrow> list_all P (replicate n x)"
  by (simp add: list_all_iff)

lemma setup_delay:
  "fst setup_fx = (delay_init Delay_default 104 DELAY_1_4 2800)
      \<lparr>dl_baseSend := 0.75 * sqrt 0.45, dl_baseWet := 0.55 * sqrt 0.45, dl_fb := 0.55 * sqrt 0.45,
       dl_send := 0.75 * sqrt 0.45, dl_wet := 0.55 * sqrt 0.45\<rparr>"
proof -
  define s :: real where "s = sqrt 0.45"
  have "s \<le> 1" unfolding s_def by (subst real_sqrt_le_1_iff) simp
  then have "\<not> 0.55 * s > 0.6" by simp
  then show ?thesis
    unfolding s_def by (simp add: setup_fx_def delay_set_space_def space_t_def Let_def)
qed

lemma setup_delay_ok: "delay_ok (fst setup_fx) \<and> dl_inited (fst setup_fx)"
proof -
  have "(of_nat DELAY_MAX_SAMPLES :: 32 word) = 32768" by (simp add: DELAY_MAX_SAMPLES_def)
  moreover have "list_all (\<lambda>v. - 1 \<le> of_q15 v \<and> of_q15 v \<le> 1) (replicate DELAY_MAX_SAMPLES 0)"
    by (rule list_all_replicate) (simp add: of_q15_def)
  moreover have "unat (32768 :: 32 word) \<le> DELAY_MAX_SAMPLES" by (simp add: DELAY_MAX_SAMPLES_def)
  ultimately show ?thesis
    by (simp add: setup_delay delay_init_def delay_ok_def delay_usable_def)
qed

text \<open>The theorem on the delay line as \<open>setup()\<close> leaves it, for the input samples
  1, -1 and 1/2.\<close>

theorem feedback_safety_witness:
  "delay_ok (fst setup_fx) \<and> dl_inited (fst setup_fx) \<and>
   (\<exists>y d1 t. delay_step (fst setup_fx) 1 = Some (y, d1) \<and> - 1 \<le> t \<and> t \<le> 1 \<and>
       dl_buf d1 = (dl_buf (fst setup_fx))[unat (dl_w (fst setup_fx)) := to_q15 t]) \<and>
   (\<exists>d2. delay_run (fst setup_fx) [1, - 1, 1 / 2] = Some d2 \<and> delay_ok d2 \<and>
       list_all (\<lambda>v. - 1 \<le> of_q15 v \<and> of_q15 v \<le> 1) (dl_buf d2))"
  using feedback_safety[of _ _ _ "fst setup_fx" 1 "[1, - 1, 1 / 2]"] setup_delay_ok
  by blast

lemma delay_step_usable:
  assumes "delay_usable dl"
  shows "\<exists>y dl1. delay_step dl x = Some (y, dl1) \<and> dl_wet dl1 = dl_wet dl"
proof (cases "dl_inited dl")
  case False
  then show ?thesis by (simp add: delay_step_def)
next
  case True
  have u: "dl_size dl \<noteq> 0" "unat (dl_size dl) \<le> length (dl_buf dl)" "dl_w dl < dl_size dl"
    using assms by (simp_all add: delay_usable_def)
  let ?r = "(dl_w dl + dl_size dl - dl_dSamp dl) mod dl_size dl"
  have "?r < dl_size dl" using u(1) by (simp add: word_mod_less_divisor word_greater_zero_iff)
  then have r: "unat ?r < length (dl_buf dl)" using u(2) by (simp add: word_less_nat_alt)
  have w: "unat (dl_w dl) < length (dl_buf dl)" using u(2,3) by (simp add: word_less_nat_alt)
  show ?thesis
    using True u(1) r w by (simp add: delay_step_def Let_def split_beta)
qed

lemma comb_step_some: "comb_ok c \<Longrightarrow> \<exists>y c1. comb_step c x = Some (y, c1)"
  by (simp add: comb_ok_def comb_step_def Let_def word_less_nat_alt)

lemma allpass_step_some: "allpass_ok a \<Longrightarrow> \<exists>y a1. allpass_step a x = Some (y, a1)"
  by (simp add: allpass_ok_def allpass_step_def Let_def word_less_nat_alt)

lemma combs_step_some: "list_all comb_ok cs \<Longrightarrow> \<exists>y cs1. combs_step cs x = Some (y, cs1)"
proof (induction cs)
  case Nil
  then show ?case by simp
next
  case (Cons c cs)
  obtain y c1 where 1: "comb_step c x = Some (y, c1)"
    using comb_step_some[of c x] Cons.prems by auto
  obtain ys cs1 where 2: "combs_step cs x = Some (ys, cs1)"
    using Cons by auto
  show ?case by (simp add: 1 2)
qed

lemma comb_reset_ok:
  "n \<in> {1117, 1189, 1277, 1361} \<Longrightarrow> comb_ok (comb_reset c n)"
  by (auto simp: comb_ok_def comb_reset_def)

lemma allpass_reset_ok:
  "n \<in> {225, 341} \<Longrightarrow> allpass_ok (allpass_reset a n)"
  by (auto simp: allpass_ok_def allpass_reset_def)

lemma reverb_init_ok:
  "list_all comb_ok (rv_c (reverb_init r)) \<and> allpass_ok (rv_ap1 (reverb_init r)) \<and>
   allpass_ok (rv_ap2 (reverb_init r))"
proof -
  have "comb_ok (comb_reset c n)" if "(c, n) \<in> set (zip (rv_c r) [1117, 1189, 1277, 1361])" for c n
  proof -
    have "n \<in> set [1117, 1189, 1277, 1361]" using that by (rule set_zip_rightD)
    then show ?thesis by (intro comb_reset_ok) simp
  qed
  then have "list_all comb_ok (map2 comb_reset (rv_c r) [1117, 1189, 1277, 1361])"
    by (auto simp: list_all_iff)
  then show ?thesis by (simp add: reverb_init_def allpass_reset_ok)
qed

lemma reverb_step_some:
  assumes "reverb_ok r"
  shows "\<exists>y r1. reverb_step r x = Some (y, r1) \<and> rv_wet r1 = rv_wet r"
proof -
  define r0 where "r0 = (if \<not> rv_inited r then reverb_init r else r)"
  have ok: "list_all comb_ok (rv_c r0)" "allpass_ok (rv_ap1 r0)" "allpass_ok (rv_ap2 r0)"
    using assms reverb_init_ok[of r] by (auto simp: r0_def reverb_ok_def)
  have wet: "rv_wet r0 = rv_wet r" by (simp add: r0_def reverb_init_def)
  obtain ysum cs where 1: "combs_step (rv_c r0) (rv_send r0 * x) = Some (ysum, cs)"
    using combs_step_some[OF ok(1)] by blast
  obtain y1 a1 where 2: "allpass_step (rv_ap1 r0) (ysum * 0.25) = Some (y1, a1)"
    using allpass_step_some[OF ok(2)] by blast
  obtain y2 a2 where 3: "allpass_step (rv_ap2 r0) y1 = Some (y2, a2)"
    using allpass_step_some[OF ok(3)] by blast
  have "reverb_step r x = Some (y2, r0\<lparr>rv_c := cs, rv_ap1 := a1, rv_ap2 := a2\<rparr>)"
    unfolding reverb_step_def Let_def r0_def[symmetric] using 1 2 3 by simp
  then show ?thesis using wet by simp
qed

lemma set_space_zero:
  "dl_send (fst (delay_set_space dl rv 0)) = 0 \<and> dl_wet (fst (delay_set_space dl rv 0)) = 0 \<and>
   dl_fb (fst (delay_set_space dl rv 0)) = 0 \<and>
   rv_send (snd (delay_set_space dl rv 0)) = 0 \<and> rv_wet (snd (delay_set_space dl rv 0)) = 0"
  by (simp add: delay_set_space_def reverb_set_space_def space_t_def Let_def)

lemma set_space_usable:
  "delay_usable dl \<Longrightarrow> delay_usable (fst (delay_set_space dl rv p))"
  by (simp add: delay_set_space_def delay_usable_def Let_def)

lemma set_space_reverb_ok:
  "reverb_ok rv \<Longrightarrow> reverb_ok (snd (delay_set_space dl rv p))"
  by (auto simp: delay_set_space_def reverb_set_space_def reverb_ok_def Let_def list_all_iff comb_ok_def)

text \<open>
  Claim C7 (space zero is dry). \<open>delay_set_space\<close> with the space percentage 0 sets the
  send, the wet level and the feedback of the delay and the send and the wet level of
  the reverb to exactly 0. With a usable delay line and a usable reverb, the effect mix
  of the render loop then returns, for every pad, pluck and noise sample, an \<open>outMono\<close>
  that equals \<open>dryMono\<close>: the wet sum contributes exactly zero (in exact arithmetic;
  rounding is not modelled).
\<close>

theorem space_zero_is_dry:
  assumes dl: "delay_usable dl" and rv: "reverb_ok rv"
  shows "dl_send (fst (delay_set_space dl rv 0)) = 0 \<and>
         dl_wet (fst (delay_set_space dl rv 0)) = 0 \<and>
         dl_fb (fst (delay_set_space dl rv 0)) = 0 \<and>
         rv_send (snd (delay_set_space dl rv 0)) = 0 \<and>
         rv_wet (snd (delay_set_space dl rv 0)) = 0 \<and>
         (\<exists>dryMono tq1 dl1 rv1.
            render_mix tq (fst (delay_set_space dl rv 0)) (snd (delay_set_space dl rv 0))
              padMono plMono n = Some (dryMono, dryMono, tq1, dl1, rv1) \<and>
            dryMono = padMono * CTR + plMono + n * NOISE_DRY_GAIN)"
proof -
  let ?dl = "fst (delay_set_space dl rv 0)" and ?rv = "snd (delay_set_space dl rv 0)"
  have z: "dl_send ?dl = 0" "dl_wet ?dl = 0" "dl_fb ?dl = 0" "rv_send ?rv = 0" "rv_wet ?rv = 0"
    using set_space_zero[of dl rv] by simp_all
  define dry where "dry = padMono * CTR + plMono + n * NOISE_DRY_GAIN"
  define fx where "fx = tone_process tq (dry + n * NOISE_FX_GAIN)"
  obtain wetTap dl1 where 1: "delay_step ?dl (fst fx) = Some (wetTap, dl1)" "dl_wet dl1 = 0"
    using delay_step_usable[OF set_space_usable[OF dl], of rv 0 "fst fx"] z(2) by auto
  obtain wetRev rv1 where 2: "reverb_step ?rv (fst fx) = Some (wetRev, rv1)" "rv_wet rv1 = 0"
    using reverb_step_some[OF set_space_reverb_ok[OF rv], of dl 0 "fst fx"] z(5) by auto
  have "render_mix tq ?dl ?rv padMono plMono n = Some (dry, dry, snd fx, dl1, rv1)"
    unfolding render_mix_def Let_def dry_def[symmetric] fx_def[symmetric]
    using 1 2 by (simp add: split_beta)
  then show ?thesis using z by (simp add: dry_def)
qed

lemma setup_reverb_ok: "reverb_ok (snd setup_fx)"
  by (simp add: setup_fx_def delay_set_space_def reverb_set_space_def reverb_ok_def
      ReverbLite_default_def Let_def)

text \<open>The theorem on the delay and the reverb as \<open>setup()\<close> leaves them, with the
  space then set to 0, at the samples 1/2, 1/4 and 1/8.\<close>

theorem space_zero_is_dry_witness:
  "delay_usable (fst setup_fx) \<and> reverb_ok (snd setup_fx) \<and>
   dl_wet (fst (delay_set_space (fst setup_fx) (snd setup_fx) 0)) = 0 \<and>
   rv_wet (snd (delay_set_space (fst setup_fx) (snd setup_fx) 0)) = 0 \<and>
   (\<exists>tq1 dl1 rv1.
      render_mix TiltEQ_default (fst (delay_set_space (fst setup_fx) (snd setup_fx) 0))
        (snd (delay_set_space (fst setup_fx) (snd setup_fx) 0)) (1 / 2) (1 / 4) (1 / 8) =
      Some (1 / 2 * CTR + 1 / 4, 1 / 2 * CTR + 1 / 4, tq1, dl1, rv1))"
proof -
  have h1: "delay_usable (fst setup_fx)" using setup_delay_ok by (simp add: delay_ok_def)
  have h2: "reverb_ok (snd setup_fx)" by (rule setup_reverb_ok)
  show ?thesis
    using h1 h2 space_zero_is_dry[OF h1 h2, of TiltEQ_default "1 / 2" "1 / 4" "1 / 8"]
    by (simp add: NOISE_DRY_GAIN_def)
qed

section \<open>Properties of the note choice and the step scheduler\<close>

lemma ambient_pool_A_MINOR: "ambient_pool SCALE_A_MINOR =
   [36, 38, 40, 41, 43, 45, 47, 48, 50, 52, 53, 55, 57, 59, 60, 62, 64, 65,
    67, 69, 71, 72, 74, 76, 77, 79, 81, 83, 84, 86, 88, 89, 91]"
  by (simp add: ambient_pool_def scaleDef_def Let_def upt7)

lemma ambient_pool_C_LYDIAN: "ambient_pool SCALE_C_LYDIAN =
   [36, 38, 40, 42, 43, 45, 47, 48, 50, 52, 54, 55, 57, 59, 60, 62, 64, 66,
    67, 69, 71, 72, 74, 76, 78, 79, 81, 83]"
  by (simp add: ambient_pool_def scaleDef_def Let_def upt7)

text \<open>
  Claim C8 (the note generator \<open>pickAmbientNote\<close>). The claim has the candidate drawn
  from the pool of all in-scale notes of the register 36 to 96. The pool that the code
  builds stops short of the register: the loop over the octaves 2 to 6 starts each
  octave at \<open>octave * 12\<close>, that is at 24 and not at 36. In C lydian the pool is the 28
  in-scale notes from 36 to 83; the note 84 lies in the register and in the scale and is
  not in the pool.
\<close>

theorem ambient_pool_misses_register:
  "ambient_pool SCALE_C_LYDIAN =
     [36, 38, 40, 42, 43, 45, 47, 48, 50, 52, 54, 55, 57, 59, 60, 62, 64, 66,
      67, 69, 71, 72, 74, 76, 78, 79, 81, 83] \<and>
   (36 :: int) \<le> 84 \<and> (84 :: int) \<le> 96 \<and>
   pc12 84 \<in> set (scale_pcs SCALE_C_LYDIAN) \<and>
   84 \<notin> set (ambient_pool SCALE_C_LYDIAN)"
  by (simp add: ambient_pool_C_LYDIAN pc12_def c_rem_def scale_pcs_def targetPC_def scaleDef_def
      Let_def upt7)

lemma rng32_vals:
  "rng32 0xA3C59AC3 = 52667181"
  "rng32 52667181 = 2676042062"
  "rng32 2676042062 = 4022220634"
  "rng32 4022220634 = 66657776"
  "rng32 66657776 = 682014643"
  "rng32 682014643 = 876985339"
  "rng32 876985339 = 3832141478"
  by (simp_all add: rng32_def Let_def)

lemma quantizeMidi_83: "quantizeMidi 83 SCALE_A_MINOR = 83"
  by (simp add: quantizeMidi_def quant_best_def quant_step_def scaleDef_def pc12_def c_rem_def
     wrap_dist_def targetPC_def Let_def upt7)

lemma pickAmbientNote_example:
  "pickAmbientNote SCALE_A_MINOR 60 52667181 = Some (83, 83, 682014643)"
  by (simp add: pickAmbientNote_def ambient_pool_A_MINOR rng32_vals rand01_def interval_jump_def
      quantizeMidi_83 Let_def)

lemma div16_mask: "(s AND 0x0F) div 16 = (0 :: 16 word)"
proof -
  have "unat (s AND 0x0F) \<le> unat (0x0F :: 16 word)"
    by (rule word_and_le1 [THEN word_le_nat_alt [THEN iffD1]])
  then have "unat ((s AND 0x0F) div 16) = unat (0 :: 16 word)"
    by (simp add: unat_div)
  then show ?thesis by (simp only: word_unat_eq_iff)
qed

lemma step_wobble_stuck:
  "step_lastBar eng = 0 \<Longrightarrow> step_wobble (s AND 0x0F) eng = eng"
  by (simp add: step_wobble_def div16_mask Let_def)

lemma onStep16_keeps_wobble:
  assumes "step_lastBar eng = 0" "onStep16 (s AND 0x0F) eng = Some eng1"
  shows "step_wob eng1 = step_wob eng \<and> step_lastBar eng1 = 0"
proof -
  let ?e1 = "eng\<lparr>gPluck := pluck_ready (gPluck eng)\<rparr>"
  have w: "step_wobble (s AND 0x0F) ?e1 = ?e1" using assms(1) by (simp add: step_wobble_stuck)
  show ?thesis
    using assms(2) assms(1) unfolding onStep16_def Let_def w
    by (auto simp: split_beta split: if_splits option.splits)
qed

lemma onSteps_keeps_wobble:
  "step_lastBar eng = 0 \<Longrightarrow>
   map_option (\<lambda>e. (step_wob e, step_lastBar e)) (onSteps (map (\<lambda>s. s AND 0x0F) steps) eng)
     \<in> {None, Some (step_wob eng, 0)}"
proof (induction steps arbitrary: eng)
  case Nil
  then show ?case by simp
next
  case (Cons s steps)
  show ?case
  proof (cases "onStep16 (s AND 0x0F) eng")
    case None
    then show ?thesis by simp
  next
    case (Some eng1)
    have k: "step_wob eng1 = step_wob eng" "step_lastBar eng1 = 0"
      using onStep16_keeps_wobble[OF Cons.prems Some] by simp_all
    show ?thesis using Cons.IH[OF k(2)] Some k(1) by simp
  qed
qed

lemma Engine_init_sel:
  "gRng32 Engine_init = 0xA3C59AC3" "gScale Engine_init = SCALE_A_MINOR"
  "gPluck Engine_init = PluckPool_default" "gEnergy Engine_init = EnergyCtrl_default"
  "step_lastBar Engine_init = 0" "step_wob Engine_init = 1" "note_last Engine_init = 60"
  by (simp_all add: Engine_init_def)

lemma pluck_alloc_default: "pluck_alloc (replicate 4 PluckVoice_default) = 0"
  by (simp add: pluck_alloc_def upt4 PluckVoice_default_def)

lemma onStep16_15_init:
  "onStep16 15 Engine_init =
     Some (Engine_init
       \<lparr>gPluck := (pluck_init PluckPool_default)
           \<lparr>pool_v := (replicate 4 PluckVoice_default)
               [0 := voice_start PluckVoice_default 83 (0.45 + 0.50 * (876985339 / 4294967296))]\<rparr>,
        gRng32 := 876985339, note_last := 83\<rparr>)"
proof -
  have ready: "pluck_ready PluckPool_default = pluck_init PluckPool_default"
    by (simp add: pluck_ready_def PluckPool_default_def)
  have v: "pool_v (pluck_init PluckPool_default) = replicate 4 PluckVoice_default"
    "pool_inited (pluck_init PluckPool_default)"
    by (simp_all add: pluck_init_def)
  have w: "step_wobble 15 (Engine_init\<lparr>gPluck := pluck_init PluckPool_default\<rparr>) =
           Engine_init\<lparr>gPluck := pluck_init PluckPool_default\<rparr>"
    by (simp add: step_wobble_def Engine_init_sel Let_def)
  have p: "step_prob 15 (Engine_init\<lparr>gPluck := pluck_init PluckPool_default\<rparr>) = 0.08"
    by (simp add: step_prob_def Engine_init_sel EnergyCtrl_default_def constrain_def Let_def)
  have n: "pluck_noteOn (pluck_init PluckPool_default) 83 vel SCALE_A_MINOR =
        Some ((pluck_init PluckPool_default)
           \<lparr>pool_v := (replicate 4 PluckVoice_default)
               [0 := voice_start PluckVoice_default 83 vel]\<rparr>)" for vel
    by (simp add: pluck_noteOn_def pluck_ready_def v pluck_alloc_default quantizeMidi_83 Let_def)
  show ?thesis
    unfolding onStep16_def Let_def
    by (simp add: Engine_init_sel ready w p rand01_def rng32_vals pickAmbientNote_example n
        Let_def)
qed

lemma onStep16_0_after:
  assumes "gRng32 eng = 876985339" "gEnergy eng = EnergyCtrl_default" "step_lastBar eng = 0"
    "step_wob eng = 1" "pool_inited (gPluck eng)"
  shows "onStep16 0 eng = Some (eng\<lparr>gRng32 := 3832141478\<rparr>)"
proof -
  have ready: "pluck_ready (gPluck eng) = gPluck eng" using assms(5) by (simp add: pluck_ready_def)
  have e: "eng\<lparr>gPluck := gPluck eng\<rparr> = eng" by simp
  have w: "step_wobble 0 eng = eng" using assms(3) by (simp add: step_wobble_def Let_def)
  have p: "step_prob 0 eng = 0.4"
    using assms(2,4) by (simp add: step_prob_def EnergyCtrl_default_def constrain_def Let_def)
  show ?thesis
    unfolding onStep16_def Let_def ready e w p
    using assms(1) by (simp add: rand01_def rng32_vals Let_def)
qed

text \<open>
  Claim C9 (the step scheduler \<open>onStep16\<close>). The claim has the wobble factor recomputed
  once every 16 steps. The clock passes step indices masked to 0 to 15, for which
  \<open>bar = step / 16\<close> is 0, the initial value of the static \<open>lastBar\<close>: over every
  sequence of such steps \<open>onStep16\<close> leaves the wobble at the value it had (initially
  1.0) and \<open>lastBar\<close> at 0, wherever it returns. From the initial globals the last
  step of a bar followed by the first step of the next leaves the wobble at 1 and draws
  seven random numbers, none of them for a wobble.
\<close>

theorem onStep16_wobble_stuck:
  "map_option (\<lambda>e. (step_wob e, step_lastBar e))
     (onSteps (map (\<lambda>s. s AND 0x0F) steps) (eng\<lparr>step_lastBar := 0\<rparr>))
     \<in> {None, Some (step_wob eng, 0)} \<and>
   map_option (\<lambda>e. (step_wob e, step_lastBar e, gRng32 e)) (onSteps [15, 0] Engine_init) =
     Some (1, 0, 3832141478)"
proof
  show "map_option (\<lambda>e. (step_wob e, step_lastBar e))
     (onSteps (map (\<lambda>s. s AND 0x0F) steps) (eng\<lparr>step_lastBar := 0\<rparr>))
     \<in> {None, Some (step_wob eng, 0)}"
    using onSteps_keeps_wobble[of "eng\<lparr>step_lastBar := 0\<rparr>" steps] by simp
next
  let ?e = "Engine_init
       \<lparr>gPluck := (pluck_init PluckPool_default)
           \<lparr>pool_v := (replicate 4 PluckVoice_default)
               [0 := voice_start PluckVoice_default 83 (0.45 + 0.50 * (876985339 / 4294967296))]\<rparr>,
        gRng32 := 876985339, note_last := 83\<rparr>"
  have "onStep16 0 ?e = Some (?e\<lparr>gRng32 := 3832141478\<rparr>)"
    by (rule onStep16_0_after) (simp_all add: Engine_init_sel pluck_init_def)
  then show "map_option (\<lambda>e. (step_wob e, step_lastBar e, gRng32 e)) (onSteps [15, 0] Engine_init) =
     Some (1, 0, 3832141478)"
    by (simp add: onStep16_15_init Engine_init_sel)
qed

lemma energy_set_order:
  "en_pOdd (fst (energy_set e pd pct)) < en_pEven (fst (energy_set e pd pct)) \<and>
   en_pEven (fst (energy_set e pd pct)) < en_pStrong (fst (energy_set e pd pct))"
proof -
  define u1 where "u1 = sqrt (real_of_int (if (if pct < 0 then 0 else pct) > 100 then 100
                                else (if pct < 0 then 0 else pct)) * (1 / 100))"
  have u: "0 \<le> u1" "u1 \<le> 1"
    unfolding u1_def by (auto simp: real_sqrt_le_1_iff)
  define f where "f = 0.7 + 1.2 * u1"
  have f: "0.7 \<le> f" "f \<le> 1.9" using u by (simp_all add: f_def)
  have "en_pStrong (fst (energy_set e pd pct)) = constrain (0.40 * f) 0.10 0.85"
    "en_pEven (fst (energy_set e pd pct)) = constrain (0.22 * f) 0.05 0.55"
    "en_pOdd (fst (energy_set e pd pct)) = constrain (0.08 * f) 0.02 0.30"
    by (simp_all add: energy_set_def Let_def f_def u1_def)
  then show ?thesis using f by (simp add: constrain_def)
qed

subsection \<open>The step handler always returns on a well-formed pool\<close>

text \<open>The note pool is never empty, so the remainder in \<open>pickAmbientNote\<close> is
  defined; with four voices whose envelopes are at most 1 the allocation index is in range.
  Hence \<open>onStep16\<close> returns a new engine state on every step.\<close>

lemma ambient_pool_nonempty: "ambient_pool s \<noteq> []"
  by (cases s) (simp_all add: ambient_pool_def scaleDef_def Let_def upt7)

lemma pickAmbientNote_some: "\<exists>note g. pickAmbientNote s last0 g0 = Some (note, note, g)"
proof -
  have n: "length (ambient_pool s) \<noteq> 0" using ambient_pool_nonempty[of s] by simp
  show ?thesis
    unfolding pickAmbientNote_def Let_def
    using n by (simp add: split_beta)
qed

lemma pluck_noteOn_some:
  assumes len: "length (pool_v p) = 4"
    and envs: "\<forall>i<4. adsr_env (pv_eg (pool_v p ! i)) \<le> 1"
  shows "\<exists>p1. pluck_noteOn p m vel sc = Some p1 \<and> length (pool_v p1) = 4 \<and>
           (\<forall>i<4. adsr_env (pv_eg (pool_v p1 ! i)) \<le> 1)"
proof -
  let ?p0 = "pluck_ready p"
  have ok: "length (pool_v ?p0) = 4" "\<forall>i<4. adsr_env (pv_eg (pool_v ?p0 ! i)) \<le> 1"
    using pluck_ready_ok[OF len envs] by simp_all
  obtain idx where i: "idx < 4" "pluck_alloc (pool_v ?p0) = int idx"
    using pluck_alloc_spec[OF ok(2)] by blast
  let ?p1 = "?p0\<lparr>pool_v := (pool_v ?p0)
                   [idx := voice_start (pool_v ?p0 ! idx) (quantizeMidi m sc) vel]\<rparr>"
  have r: "pluck_noteOn p m vel sc = Some ?p1"
    using i by (simp add: pluck_noteOn_def Let_def)
  have "adsr_env (pv_eg (pool_v ?p1 ! j)) \<le> 1" if "j < 4" for j
  proof (cases "j = idx")
    case True
    then show ?thesis using ok(1) i(1) by (simp add: voice_start_def)
  next
    case False
    then show ?thesis using ok(2) that by simp
  qed
  then show ?thesis using r ok(1) by simp
qed

lemma onStep16_some:
  assumes len: "length (pool_v (gPluck eng)) = 4"
    and envs: "\<forall>i<4. adsr_env (pv_eg (pool_v (gPluck eng) ! i)) \<le> 1"
  shows "\<exists>eng1. onStep16 s eng = Some eng1 \<and> length (pool_v (gPluck eng1)) = 4 \<and>
           (\<forall>i<4. adsr_env (pv_eg (pool_v (gPluck eng1) ! i)) \<le> 1)"
proof -
  let ?pl = "pluck_ready (gPluck eng)"
  have ok: "length (pool_v ?pl) = 4" "\<forall>i<4. adsr_env (pv_eg (pool_v ?pl ! i)) \<le> 1"
    using pluck_ready_ok[OF len envs] by simp_all
  define eng2 where "eng2 = step_wobble s (eng\<lparr>gPluck := ?pl\<rparr>)"
  have pl2: "gPluck eng2 = ?pl"
    by (simp add: eng2_def step_wobble_def Let_def split_beta)
  define eng3 where "eng3 = eng2\<lparr>gRng32 := snd (rand01 (gRng32 eng2))\<rparr>"
  have pl3: "gPluck eng3 = ?pl" by (simp add: eng3_def pl2)
  show ?thesis
  proof (cases "fst (rand01 (gRng32 eng2)) < step_prob s eng2")
    case False
    then have "onStep16 s eng = Some eng3"
      unfolding onStep16_def Let_def eng2_def[symmetric] by (simp add: split_beta eng3_def)
    then show ?thesis using ok pl3 by simp
  next
    case True
    obtain nt g1 where pk: "pickAmbientNote (gScale eng3) (note_last eng3) (gRng32 eng3) = Some (nt, nt, g1)"
      using pickAmbientNote_some by blast
    obtain p1 where p1: "pluck_noteOn ?pl nt (0.45 + 0.50 * fst (rand01 g1)) (gScale eng3) = Some p1"
        "length (pool_v p1) = 4" "\<forall>i<4. adsr_env (pv_eg (pool_v p1 ! i)) \<le> 1"
      using pluck_noteOn_some[OF ok] by blast
    have "onStep16 s eng = Some (eng3\<lparr>note_last := nt, gRng32 := snd (rand01 g1), gPluck := p1\<rparr>)"
      unfolding onStep16_def Let_def eng2_def[symmetric]
      using True pk p1(1) pl3 by (simp add: split_beta eng3_def)
    then show ?thesis using p1(2,3) by simp
  qed
qed

lemma onSteps_total:
  assumes "length (pool_v (gPluck eng)) = 4"
    and "\<forall>i<4. adsr_env (pv_eg (pool_v (gPluck eng) ! i)) \<le> 1"
  shows "\<exists>eng1. onSteps steps eng = Some eng1"
  using assms
proof (induction steps arbitrary: eng)
  case Nil
  then show ?case by simp
next
  case (Cons s steps)
  obtain eng1 where e: "onStep16 s eng = Some eng1" "length (pool_v (gPluck eng1)) = 4"
      "\<forall>i<4. adsr_env (pv_eg (pool_v (gPluck eng1) ! i)) \<le> 1"
    using onStep16_some[OF Cons.prems] by blast
  show ?case using Cons.IH[OF e(2,3)] e(1) by simp
qed

section \<open>Properties of the scene crossfade\<close>


lemma smooth_0: "smooth 0 = 0" by (simp add: smooth_def)
lemma smooth_1: "smooth 1 = 1" by (simp add: smooth_def)



lemma lerp_0: "lerp a b 0 = a" by (simp add: lerp_def)
lemma lerp_1: "lerp a b 1 = b" by (simp add: lerp_def)



lemma expLerp_ends: "0 < a \<Longrightarrow> expLerp a b 0 = a" "0 < b \<Longrightarrow> expLerp a b 1 = b"
  by (simp_all add: expLerp_def lerp_def)













end
